theory Spec2Isabelle
  imports Main "HOL-Library.Word"
begin

unbundle bit_operations_syntax

section \<open>Data model\<close>

text \<open>
  The library \<^verbatim>\<open>endian_io.c\<close> writes and reads arrays of fixed-size elements through
  a C stream, reversing the bytes of every element when the byte order asked for differs
  from the byte order of the machine.

  Memory is a store from addresses to bytes. The functions of the source receive raw
  pointers (\<^verbatim>\<open>const uint8_t* data\<close>, the scratch \<^verbatim>\<open>buffer\<close>), copy between them and
  swap in place, so the model keeps one heap in which both regions live, and every
  function that writes memory returns the new heap. The null pointer is address \<open>0\<close>.
  Sizes and counts (\<^verbatim>\<open>size_t\<close>) are natural numbers: every product the source forms
  (\<^verbatim>\<open>i * size\<close>, \<^verbatim>\<open>(offset + i) * size\<close>) is an offset inside an object that exists in
  memory, so it cannot wrap around.
\<close>

type_synonym byte = "8 word"
type_synonym addr = nat
type_synonym heap = "addr \<Rightarrow> byte"

text \<open>\<^verbatim>\<open>typedef enum { ENDIAN_LITTLE, ENDIAN_BIG } endian_t;\<close>\<close>

datatype endian_t = ENDIAN_LITTLE | ENDIAN_BIG

text \<open>Reading \<open>n\<close> bytes at \<open>p\<close>, and storing a byte sequence at \<open>p\<close>.\<close>

definition peek :: "heap \<Rightarrow> addr \<Rightarrow> nat \<Rightarrow> byte list" where
  "peek h p n = map h [p..<p + n]"

definition poke :: "heap \<Rightarrow> addr \<Rightarrow> byte list \<Rightarrow> heap" where
  "poke h p bs = (\<lambda>a. if p \<le> a \<and> a < p + length bs then bs ! (a - p) else h a)"

definition heap_of :: "addr \<Rightarrow> byte list \<Rightarrow> heap" where
  "heap_of p bs = poke (\<lambda>a. 0) p bs"

subsection \<open>Object representation of integers\<close>

text \<open>
  The source reads and writes elements of 2, 4 and 8 bytes through
  \<^verbatim>\<open>uint16_t*\<close>, \<^verbatim>\<open>uint32_t*\<close> and \<^verbatim>\<open>uint64_t*\<close>. What such an access yields depends on
  the machine: a little-endian host keeps the least significant byte at the lowest
  address, a big-endian host the most significant one. The host's order is a parameter
  \<open>host\<close> of the model.
\<close>

definition le_bytes :: "nat \<Rightarrow> 'a::len word \<Rightarrow> byte list" where
  "le_bytes n w = map (\<lambda>i. ucast (drop_bit (8 * i) w)) [0..<n]"

fun le_word :: "byte list \<Rightarrow> 'a::len word" where
  "le_word [] = 0"
| "le_word (b # bs) = ucast b OR push_bit 8 (le_word bs)"

definition word_bytes :: "endian_t \<Rightarrow> nat \<Rightarrow> 'a::len word \<Rightarrow> byte list" where
  "word_bytes host n w =
     (case host of ENDIAN_LITTLE \<Rightarrow> le_bytes n w | ENDIAN_BIG \<Rightarrow> rev (le_bytes n w))"

definition bytes_word :: "endian_t \<Rightarrow> byte list \<Rightarrow> 'a::len word" where
  "bytes_word host bs =
     (case host of ENDIAN_LITTLE \<Rightarrow> le_word bs | ENDIAN_BIG \<Rightarrow> le_word (rev bs))"

text \<open>\<^verbatim>\<open>*(T*)p\<close> as an rvalue, and \<^verbatim>\<open>*(T*)p = w\<close>, for an unsigned integer type \<open>T\<close>.\<close>

definition load :: "endian_t \<Rightarrow> heap \<Rightarrow> addr \<Rightarrow> 'a::len word" where
  "load host h p = bytes_word host (peek h p (LENGTH('a) div 8))"

definition store :: "endian_t \<Rightarrow> heap \<Rightarrow> addr \<Rightarrow> 'a::len word \<Rightarrow> heap" where
  "store host h p w = poke h p (word_bytes host (LENGTH('a) div 8) w)"

section \<open>Endianness detection\<close>

text \<open>
  \<^verbatim>\<open>
  static inline int is_little_endian(void) {
      uint16_t x = 1;
      return *((uint8_t*)&x) == 1;
  }
  \<close>
  The first byte of the object representation of the 16-bit value 1.
\<close>

definition is_little_endian :: "endian_t \<Rightarrow> bool" where
  "is_little_endian host = (let x = (1 :: 16 word) in hd (word_bytes host 2 x) = 1)"

section \<open>Byte-swap helpers\<close>

text \<open>
  The portable branches of \<^verbatim>\<open>bswap16\<close>, \<^verbatim>\<open>bswap32\<close> and \<^verbatim>\<open>bswap64\<close>; the compiler
  builtins of the other branch compute the same functions. In \<^verbatim>\<open>bswap16\<close> the operand
  is promoted to \<^verbatim>\<open>int\<close> before the shifts and the result is truncated to 16 bits on
  return:
  \<^verbatim>\<open>return (x >> 8) | (x << 8);\<close>
\<close>

definition bswap16 :: "16 word \<Rightarrow> 16 word" where
  "bswap16 x = (let xi = (ucast x :: 32 word) in ucast (drop_bit 8 xi OR push_bit 8 xi))"

definition bswap32 :: "32 word \<Rightarrow> 32 word" where
  "bswap32 x = ((drop_bit 24 x AND 0xFF) OR
                (drop_bit 8 x AND 0xFF00) OR
                (push_bit 8 x AND 0xFF0000) OR
                (push_bit 24 x AND 0xFF000000))"

definition bswap64 :: "64 word \<Rightarrow> 64 word" where
  "bswap64 x = ((drop_bit 56 x AND 0xFF) OR
                (drop_bit 40 x AND 0xFF00) OR
                (drop_bit 24 x AND 0xFF0000) OR
                (drop_bit 8 x AND 0xFF000000) OR
                (push_bit 8 x AND 0xFF00000000) OR
                (push_bit 24 x AND 0xFF0000000000) OR
                (push_bit 40 x AND 0xFF000000000000) OR
                (push_bit 56 x AND 0xFF00000000000000))"

text \<open>
  \<^verbatim>\<open>
  static inline void reverse_bytes(uint8_t* data, size_t size) {
      for (size_t i = 0; i < size / 2; i++) {
          uint8_t tmp = data[i];
          data[i] = data[size - 1 - i];
          data[size - 1 - i] = tmp;
      }
  }
  \<close>
  The loop is the recursion \<open>reverse_bytes_from\<close> on its counter \<open>i\<close>.
\<close>

function reverse_bytes_from :: "nat \<Rightarrow> heap \<Rightarrow> addr \<Rightarrow> nat \<Rightarrow> heap" where
  "reverse_bytes_from i h data sz =
     (if i < sz div 2 then
        (let tmp = h (data + i);
             h1 = h(data + i := h (data + (sz - 1 - i)));
             h2 = h1(data + (sz - 1 - i) := tmp)
         in reverse_bytes_from (i + 1) h2 data sz)
      else h)"
  by pat_completeness auto
termination
  by (relation "measure (\<lambda>(i, h, data, sz). sz div 2 - i)") auto

declare reverse_bytes_from.simps [simp del]

definition reverse_bytes :: "heap \<Rightarrow> addr \<Rightarrow> nat \<Rightarrow> heap" where
  "reverse_bytes h data sz = reverse_bytes_from 0 h data sz"

section \<open>Core endian conversion\<close>

text \<open>
  \<^verbatim>\<open>
  static inline void convert_endian(void* elem, size_t size) {
      switch (size) {
          case 2: *(uint16_t*)elem = bswap16(*(uint16_t*)elem); break;
          case 4: *(uint32_t*)elem = bswap32(*(uint32_t*)elem); break;
          case 8: *(uint64_t*)elem = bswap64(*(uint64_t*)elem); break;
          default: reverse_bytes((uint8_t*)elem, size); break;
      }
  }
  \<close>
\<close>

definition convert_endian :: "endian_t \<Rightarrow> heap \<Rightarrow> addr \<Rightarrow> nat \<Rightarrow> heap" where
  "convert_endian host h elem sz =
     (if sz = 2 then store host h elem (bswap16 (load host h elem))
      else if sz = 4 then store host h elem (bswap32 (load host h elem))
      else if sz = 8 then store host h elem (bswap64 (load host h elem))
      else reverse_bytes h elem sz)"

section \<open>Streams\<close>

text \<open>
  A \<^verbatim>\<open>FILE*\<close> is an optional stream (\<open>None\<close> is the null handle). A stream holds the
  bytes of the file, the read position, and the number of bytes the device still
  accepts: a write beyond \<open>room\<close> is a short write, a read beyond the end of
  \<open>content\<close> is a short read. \<^verbatim>\<open>fwrite\<close> and \<^verbatim>\<open>fread\<close> are those of the C library:
  they transfer as many bytes as they can and return the number of complete elements.
\<close>

record stream =
  content :: "byte list"
  rpos :: nat
  room :: nat

definition fresh :: "nat \<Rightarrow> stream" where
  "fresh n = \<lparr>content = [], rpos = 0, room = n\<rparr>"

definition fwrite :: "heap \<Rightarrow> addr \<Rightarrow> nat \<Rightarrow> nat \<Rightarrow> stream \<Rightarrow> nat \<times> stream" where
  "fwrite h ptr sz nmemb f =
     (let bs = take (room f) (peek h ptr (sz * nmemb))
      in (length bs div sz, f\<lparr>content := content f @ bs, room := room f - length bs\<rparr>))"

definition fread :: "heap \<Rightarrow> addr \<Rightarrow> nat \<Rightarrow> nat \<Rightarrow> stream \<Rightarrow> nat \<times> stream \<times> heap" where
  "fread h ptr sz nmemb f =
     (let bs = take (sz * nmemb) (drop (rpos f) (content f))
      in (length bs div sz, f\<lparr>rpos := rpos f + length bs\<rparr>, poke h ptr bs))"

definition memcpy :: "heap \<Rightarrow> addr \<Rightarrow> addr \<Rightarrow> nat \<Rightarrow> heap" where
  "memcpy h dst src n = poke h dst (peek h src n)"

section \<open>Generic file I/O: the write path\<close>

text \<open>\<^verbatim>\<open>const size_t buffer_size = 256;\<close>\<close>

definition buffer_size :: nat where
  "buffer_size = 256"

text \<open>
  The inner loop of \<^verbatim>\<open>write_endian\<close> copies one batch into the scratch buffer and
  swaps each copy there:
  \<^verbatim>\<open>
  for (size_t i = 0; i < batch; i++) {
      uint8_t* dst = buffer + i * size;
      const uint8_t* src = data + (offset + i) * size;
      memcpy(dst, src, size);
      convert_endian(dst, size);
  }
  \<close>
\<close>

function copy_swap_from ::
  "nat \<Rightarrow> endian_t \<Rightarrow> heap \<Rightarrow> addr \<Rightarrow> addr \<Rightarrow> nat \<Rightarrow> nat \<Rightarrow> nat \<Rightarrow> heap" where
  "copy_swap_from i host h buffer data offset batch sz =
     (if i < batch then
        (let dst = buffer + i * sz;
             src = data + (offset + i) * sz;
             h1 = memcpy h dst src sz;
             h2 = convert_endian host h1 dst sz
         in copy_swap_from (i + 1) host h2 buffer data offset batch sz)
      else h)"
  by pat_completeness auto
termination
  by (relation "measure (\<lambda>(i, host, h, buffer, data, offset, batch, sz). batch - i)") auto

declare copy_swap_from.simps [simp del]

text \<open>
  The outer loop has no bound of its own: \<^verbatim>\<open>offset\<close> advances by \<^verbatim>\<open>batch\<close>, which is
  computed from \<^verbatim>\<open>block_elems\<close>. It is a partial function, whose value \<open>None\<close> is a
  run that never returns.
  \<^verbatim>\<open>
  for (size_t offset = 0; offset < num; ) {
      size_t batch = num - offset < block_elems ? num - offset : block_elems;
      ... copy + endian swap into buffer ...
      if (fwrite(buffer, size, batch, file) != batch) {
          ... free(buffer) ...
          return -1;
      }
      offset += batch;
  }
  ... free(buffer) ...
  return 0;
  \<close>
\<close>

partial_function (option) write_batches ::
  "endian_t \<Rightarrow> heap \<Rightarrow> stream \<Rightarrow> addr \<Rightarrow> addr \<Rightarrow> nat \<Rightarrow> nat \<Rightarrow> nat \<Rightarrow> nat
   \<Rightarrow> (int \<times> stream \<times> heap) option" where
  "write_batches host h f buffer data num sz block_elems offset =
     (if offset < num then
        (let batch = (if num - offset < block_elems then num - offset else block_elems);
             h1 = copy_swap_from 0 host h buffer data offset batch sz;
             (n, f1) = fwrite h1 buffer sz batch f
         in if n \<noteq> batch then Some (- 1, f1, h1)
            else write_batches host h1 f1 buffer data num sz block_elems (offset + batch))
      else Some (0, f, h))"

declare write_batches.simps [code]

text \<open>
  \<^verbatim>\<open>static int write_endian(FILE* file, const uint8_t* data, size_t num, size_t size,
                          endian_t target_endian)\<close>.
  Besides the arguments of the C function the model takes what the call finds in its
  environment: the host's byte order, the heap, and \<open>buffer\<close>, the address of the
  256-byte scratch area that \<^verbatim>\<open>aligned_alloc\<close> or \<^verbatim>\<open>posix_memalign\<close> returns (0 when the
  allocation fails) or of the local array of the fallback branch. The result is the
  returned \<^verbatim>\<open>int\<close>, the stream and the heap after the call.
\<close>

definition write_endian ::
  "endian_t \<Rightarrow> addr \<Rightarrow> heap \<Rightarrow> stream option \<Rightarrow> addr \<Rightarrow> nat \<Rightarrow> nat \<Rightarrow> endian_t
   \<Rightarrow> (int \<times> stream option \<times> heap) option" where
  "write_endian host buffer h file data num sz target_endian =
     (case file of
        None \<Rightarrow> Some (- 1, None, h)
      | Some f \<Rightarrow>
          if data = 0 \<or> sz = 0 \<or> num = 0 then Some (- 1, Some f, h)
          else
            (let host_little = is_little_endian host;
                 swap_needed = ((host_little \<and> target_endian = ENDIAN_BIG) \<or>
                                (\<not> host_little \<and> target_endian = ENDIAN_LITTLE))
             in if \<not> swap_needed then
                  (case fwrite h data sz num f of
                     (n, f1) \<Rightarrow> Some (if n = num then 0 else - 1, Some f1, h))
                else if buffer = 0 then Some (- 1, Some f, h)
                else
                  (case write_batches host h f buffer data num sz (buffer_size div sz) 0 of
                     None \<Rightarrow> None
                   | Some (r, f1, h1) \<Rightarrow> Some (r, Some f1, h1))))"

section \<open>Generic file I/O: the read path\<close>

text \<open>
  \<^verbatim>\<open>
  for (size_t i = 0; i < num; i++) {
      uint8_t* dst = data + i * size;
      if (fread(dst, 1, size, file) != size)
          return -1;
      if (swap_needed)
          convert_endian(dst, size);
  }
  return 0;
  \<close>
\<close>

function read_loop ::
  "nat \<Rightarrow> endian_t \<Rightarrow> bool \<Rightarrow> heap \<Rightarrow> stream \<Rightarrow> addr \<Rightarrow> nat \<Rightarrow> nat \<Rightarrow> int \<times> stream \<times> heap" where
  "read_loop i host swap_needed h f data num sz =
     (if i < num then
        (let dst = data + i * sz;
             (n, f1, h1) = fread h dst 1 sz f
         in if n \<noteq> sz then (- 1, f1, h1)
            else read_loop (i + 1) host swap_needed
                   (if swap_needed then convert_endian host h1 dst sz else h1) f1 data num sz)
      else (0, f, h))"
  by pat_completeness auto
termination
  by (relation "measure (\<lambda>(i, host, swap_needed, h, f, data, num, sz). num - i)") auto

declare read_loop.simps [simp del]

definition read_endian ::
  "endian_t \<Rightarrow> heap \<Rightarrow> stream option \<Rightarrow> addr \<Rightarrow> nat \<Rightarrow> nat \<Rightarrow> endian_t
   \<Rightarrow> int \<times> stream option \<times> heap" where
  "read_endian host h file data num sz source_endian =
     (case file of
        None \<Rightarrow> (- 1, None, h)
      | Some f \<Rightarrow>
          if data = 0 \<or> sz = 0 then (- 1, Some f, h)
          else
            (let host_little = is_little_endian host;
                 swap_needed = ((host_little \<and> source_endian = ENDIAN_BIG) \<or>
                                (\<not> host_little \<and> source_endian = ENDIAN_LITTLE))
             in case read_loop 0 host swap_needed h f data num sz of
                  (r, f1, h1) \<Rightarrow> (r, Some f1, h1)))"

section \<open>Public API\<close>

definition write_be ::
  "endian_t \<Rightarrow> addr \<Rightarrow> heap \<Rightarrow> stream option \<Rightarrow> addr \<Rightarrow> nat \<Rightarrow> nat
   \<Rightarrow> (int \<times> stream option \<times> heap) option" where
  "write_be host buffer h file data num sz =
     write_endian host buffer h file data num sz ENDIAN_BIG"

definition read_be ::
  "endian_t \<Rightarrow> heap \<Rightarrow> stream option \<Rightarrow> addr \<Rightarrow> nat \<Rightarrow> nat \<Rightarrow> int \<times> stream option \<times> heap" where
  "read_be host h file data num sz = read_endian host h file data num sz ENDIAN_BIG"

definition write_le ::
  "endian_t \<Rightarrow> addr \<Rightarrow> heap \<Rightarrow> stream option \<Rightarrow> addr \<Rightarrow> nat \<Rightarrow> nat
   \<Rightarrow> (int \<times> stream option \<times> heap) option" where
  "write_le host buffer h file data num sz =
     write_endian host buffer h file data num sz ENDIAN_LITTLE"

definition read_le ::
  "endian_t \<Rightarrow> heap \<Rightarrow> stream option \<Rightarrow> addr \<Rightarrow> nat \<Rightarrow> nat \<Rightarrow> int \<times> stream option \<times> heap" where
  "read_le host h file data num sz = read_endian host h file data num sz ENDIAN_LITTLE"

section \<open>Vocabulary of the specification\<close>

text \<open>
  Element \<open>i\<close> of an array of \<open>sz\<close>-byte elements at \<open>data\<close>; the bytes of elements
  \<open>lo..<hi\<close> with each element reversed; the first \<open>k\<close> chunks of \<open>sz\<close> bytes of a byte
  sequence; and those chunks as the read path leaves them in memory.
\<close>

definition element :: "heap \<Rightarrow> addr \<Rightarrow> nat \<Rightarrow> nat \<Rightarrow> byte list" where
  "element h data sz i = peek h (data + i * sz) sz"

definition swapped :: "heap \<Rightarrow> addr \<Rightarrow> nat \<Rightarrow> nat \<Rightarrow> nat \<Rightarrow> byte list" where
  "swapped h data sz lo hi = concat (map (\<lambda>j. rev (element h data sz j)) [lo..<hi])"

definition chunks :: "nat \<Rightarrow> nat \<Rightarrow> 'a list \<Rightarrow> 'a list list" where
  "chunks sz k xs = map (\<lambda>j. take sz (drop (j * sz) xs)) [0..<k]"

definition converted :: "bool \<Rightarrow> nat \<Rightarrow> nat \<Rightarrow> byte list \<Rightarrow> byte list" where
  "converted swap_needed sz k bs =
     concat (map (\<lambda>c. if swap_needed then rev c else c) (chunks sz k bs))"

section \<open>Memory, words and the byte swap\<close>

lemma length_peek [simp]: "length (peek h p n) = n"
  by (simp add: peek_def)

lemma nth_peek [simp]: "i < n \<Longrightarrow> peek h p n ! i = h (p + i)"
  by (simp add: peek_def)

lemma peek_0 [simp]: "peek h p 0 = []"
  by (simp add: peek_def)

lemma poke_Nil [simp]: "poke h p [] = h"
  by (rule ext) (auto simp: poke_def)

lemma poke_outside: "a < p \<or> p + length bs \<le> a \<Longrightarrow> poke h p bs a = h a"
  by (auto simp: poke_def)

lemma poke_inside: "p \<le> a \<Longrightarrow> a < p + length bs \<Longrightarrow> poke h p bs a = bs ! (a - p)"
  by (simp add: poke_def)

lemma peek_poke_same [simp]: "length bs = n \<Longrightarrow> peek (poke h p bs) p n = bs"
  by (rule nth_equalityI) (simp_all add: poke_def)

lemma peek_eqI: "(\<And>a. p \<le> a \<Longrightarrow> a < p + n \<Longrightarrow> h a = h' a) \<Longrightarrow> peek h p n = peek h' p n"
  by (simp add: peek_def)

lemma peek_poke_disjoint:
  "q + n \<le> p \<or> p + length bs \<le> q \<Longrightarrow> peek (poke h p bs) q n = peek h q n"
  by (rule peek_eqI) (auto simp: poke_def)

lemma poke_poke_same [simp]:
  "length bs = length cs \<Longrightarrow> poke (poke h p bs) p cs = poke h p cs"
  by (rule ext) (simp add: poke_def)

lemma poke_poke_append:
  "length bs = n \<Longrightarrow> poke (poke h p bs) (p + n) cs = poke h p (bs @ cs)"
  by (rule ext) (auto simp: poke_def nth_append)

lemma peek_add: "peek h p (m + n) = peek h p m @ peek h (p + m) n"
  by (rule nth_equalityI) (auto simp: nth_append)

lemma length_le_bytes [simp]: "length (le_bytes n w) = n"
  by (simp add: le_bytes_def)

lemma byte_of_le_word:
  "i < length bs \<Longrightarrow> 8 * length bs \<le> LENGTH('a) \<Longrightarrow>
   (ucast (drop_bit (8 * i) (le_word bs :: 'a::len word)) :: byte) = bs ! i"
proof (induction bs arbitrary: i)
  case Nil
  then show ?case by simp
next
  case (Cons b bs)
  show ?case
  proof (cases i)
    case 0
    have "(ucast (ucast b OR push_bit 8 (le_word bs :: 'a word)) :: byte) = b"
      using Cons.prems by (intro bit_word_eqI) (auto simp: bit_simps)
    with 0 show ?thesis by simp
  next
    case (Suc j)
    have j: "j < length bs" "8 * length bs \<le> LENGTH('a)"
      using Cons.prems Suc by simp_all
    have "(ucast (drop_bit (8 * Suc j) (ucast b OR push_bit 8 (le_word bs :: 'a word))) :: byte)
          = ucast (drop_bit (8 * j) (le_word bs :: 'a word))"
      using Cons.prems Suc by (intro bit_word_eqI) (auto simp: bit_simps dest: bit_imp_le_length)
    with Suc Cons.IH [OF j] show ?thesis by simp
  qed
qed

lemma le_bytes_le_word:
  "length bs = n \<Longrightarrow> 8 * n \<le> LENGTH('a) \<Longrightarrow> le_bytes n (le_word bs :: 'a::len word) = bs"
  by (rule nth_equalityI) (simp_all add: le_bytes_def byte_of_le_word)

lemma mask_FF: "(0xFF :: 'a::len word) = mask 8"
  by (simp add: mask_eq_exp_minus_1)

lemma masks32:
  "(0xFF00 :: 32 word) = push_bit 8 (mask 8)"
  "(0xFF0000 :: 32 word) = push_bit 16 (mask 8)"
  "(0xFF000000 :: 32 word) = push_bit 24 (mask 8)"
  by (simp_all add: mask_eq_exp_minus_1)

lemma masks64:
  "(0xFF00 :: 64 word) = push_bit 8 (mask 8)"
  "(0xFF0000 :: 64 word) = push_bit 16 (mask 8)"
  "(0xFF000000 :: 64 word) = push_bit 24 (mask 8)"
  "(0xFF00000000 :: 64 word) = push_bit 32 (mask 8)"
  "(0xFF0000000000 :: 64 word) = push_bit 40 (mask 8)"
  "(0xFF000000000000 :: 64 word) = push_bit 48 (mask 8)"
  "(0xFF00000000000000 :: 64 word) = push_bit 56 (mask 8)"
  by (simp_all add: mask_eq_exp_minus_1)

lemma upt_2: "[0..<2] = [0, Suc 0]"
  by (simp add: upt_rec)

lemma upt_4: "[0..<4] = [0, 1, 2, 3]"
  by (simp add: upt_rec)

lemma upt_8: "[0..<8] = [0, 1, 2, 3, 4, 5, 6, 7]"
  by (simp add: upt_rec)

lemma le_bytes_bswap16: "le_bytes 2 (bswap16 x) = rev (le_bytes 2 x)"
proof -
  have "(ucast (bswap16 x) :: byte) = ucast (drop_bit 8 x)"
    by (intro bit_word_eqI) (auto simp: bswap16_def Let_def bit_simps dest: bit_imp_le_length)
  moreover have "(ucast (drop_bit 8 (bswap16 x)) :: byte) = ucast x"
    by (intro bit_word_eqI) (auto simp: bswap16_def Let_def bit_simps dest: bit_imp_le_length)
  ultimately show ?thesis
    by (simp add: le_bytes_def upt_2)
qed

lemma le_bytes_bswap32: "le_bytes 4 (bswap32 x) = rev (le_bytes 4 x)"
proof -
  have "(ucast (bswap32 x) :: byte) = ucast (drop_bit 24 x)"
    by (intro bit_word_eqI) (auto simp: bswap32_def mask_FF masks32 bit_simps)
  moreover have "(ucast (drop_bit 8 (bswap32 x)) :: byte) = ucast (drop_bit 16 x)"
    by (intro bit_word_eqI) (auto simp: bswap32_def mask_FF masks32 bit_simps)
  moreover have "(ucast (drop_bit 16 (bswap32 x)) :: byte) = ucast (drop_bit 8 x)"
    by (intro bit_word_eqI) (auto simp: bswap32_def mask_FF masks32 bit_simps)
  moreover have "(ucast (drop_bit 24 (bswap32 x)) :: byte) = ucast x"
    by (intro bit_word_eqI) (auto simp: bswap32_def mask_FF masks32 bit_simps)
  ultimately show ?thesis
    by (simp add: le_bytes_def upt_4)
qed

lemma le_bytes_bswap64: "le_bytes 8 (bswap64 x) = rev (le_bytes 8 x)"
proof -
  have "(ucast (bswap64 x) :: byte) = ucast (drop_bit 56 x)"
    by (intro bit_word_eqI) (auto simp: bswap64_def mask_FF masks64 bit_simps)
  moreover have "(ucast (drop_bit 8 (bswap64 x)) :: byte) = ucast (drop_bit 48 x)"
    by (intro bit_word_eqI) (auto simp: bswap64_def mask_FF masks64 bit_simps)
  moreover have "(ucast (drop_bit 16 (bswap64 x)) :: byte) = ucast (drop_bit 40 x)"
    by (intro bit_word_eqI) (auto simp: bswap64_def mask_FF masks64 bit_simps)
  moreover have "(ucast (drop_bit 24 (bswap64 x)) :: byte) = ucast (drop_bit 32 x)"
    by (intro bit_word_eqI) (auto simp: bswap64_def mask_FF masks64 bit_simps)
  moreover have "(ucast (drop_bit 32 (bswap64 x)) :: byte) = ucast (drop_bit 24 x)"
    by (intro bit_word_eqI) (auto simp: bswap64_def mask_FF masks64 bit_simps)
  moreover have "(ucast (drop_bit 40 (bswap64 x)) :: byte) = ucast (drop_bit 16 x)"
    by (intro bit_word_eqI) (auto simp: bswap64_def mask_FF masks64 bit_simps)
  moreover have "(ucast (drop_bit 48 (bswap64 x)) :: byte) = ucast (drop_bit 8 x)"
    by (intro bit_word_eqI) (auto simp: bswap64_def mask_FF masks64 bit_simps)
  moreover have "(ucast (drop_bit 56 (bswap64 x)) :: byte) = ucast x"
    by (intro bit_word_eqI) (auto simp: bswap64_def mask_FF masks64 bit_simps)
  ultimately show ?thesis
    by (simp add: le_bytes_def upt_8)
qed


lemma reverse_bytes_from_eq:
  "reverse_bytes_from i h p n a =
     (if p + i \<le> a \<and> a + i < p + n then h (p + (n - 1 - (a - p))) else h a)"
proof (induction i h p n arbitrary: a rule: reverse_bytes_from.induct)
  case (1 i h data sz)
  show ?case
  proof (cases "i < sz div 2")
    case True
    define h2 where "h2 = (h(data + i := h (data + (sz - 1 - i)))) (data + (sz - 1 - i) := h (data + i))"
    have step: "reverse_bytes_from i h data sz a = reverse_bytes_from (i + 1) h2 data sz a"
      using True by (subst reverse_bytes_from.simps) (simp add: Let_def h2_def)
    have IH: "reverse_bytes_from (i + 1) h2 data sz a =
       (if data + (i + 1) \<le> a \<and> a + (i + 1) < data + sz
        then h2 (data + (sz - 1 - (a - data))) else h2 a)"
      unfolding h2_def by (rule "1.IH" [OF True refl refl refl])
    have "reverse_bytes_from i h data sz a =
       (if data + (i + 1) \<le> a \<and> a + (i + 1) < data + sz
        then h2 (data + (sz - 1 - (a - data))) else h2 a)"
      by (simp only: step IH)
    also have "\<dots> = (if data + i \<le> a \<and> a + i < data + sz
        then h (data + (sz - 1 - (a - data))) else h a)"
      using True by (auto simp: h2_def)
    finally show ?thesis .
  next
    case False
    have "reverse_bytes_from i h data sz a = h a"
      using False by (subst reverse_bytes_from.simps) simp
    moreover have "data + i \<le> a \<and> a + i < data + sz \<Longrightarrow> data + (sz - 1 - (a - data)) = a"
      using False by auto
    ultimately show ?thesis by auto
  qed
qed

lemma reverse_bytes_eq: "reverse_bytes h p n = poke h p (rev (peek h p n))"
  by (rule ext) (auto simp: reverse_bytes_def reverse_bytes_from_eq poke_def rev_nth)


lemma swap_word_bytes16:
  "length bs = 2 \<Longrightarrow> word_bytes host 2 (bswap16 (bytes_word host bs)) = rev bs"
  by (cases host) (simp_all add: word_bytes_def bytes_word_def le_bytes_bswap16 le_bytes_le_word)

lemma swap_word_bytes32:
  "length bs = 4 \<Longrightarrow> word_bytes host 4 (bswap32 (bytes_word host bs)) = rev bs"
  by (cases host) (simp_all add: word_bytes_def bytes_word_def le_bytes_bswap32 le_bytes_le_word)

lemma swap_word_bytes64:
  "length bs = 8 \<Longrightarrow> word_bytes host 8 (bswap64 (bytes_word host bs)) = rev bs"
  by (cases host) (simp_all add: word_bytes_def bytes_word_def le_bytes_bswap64 le_bytes_le_word)

lemma convert_endian_eq: "convert_endian host h p n = poke h p (rev (peek h p n))"
  by (simp add: convert_endian_def store_def load_def reverse_bytes_eq
      swap_word_bytes16 swap_word_bytes32 swap_word_bytes64)

lemma is_little_endian_eq: "is_little_endian host = (host = ENDIAN_LITTLE)"
  by (cases host) (simp_all add: is_little_endian_def word_bytes_def le_bytes_def upt_2)

lemma copy_element: "convert_endian host (memcpy h dst src n) dst n = poke h dst (rev (peek h src n))"
  by (simp add: convert_endian_eq memcpy_def)


lemma length_element [simp]: "length (element h data sz i) = sz"
  by (simp add: element_def)

lemma length_swapped [simp]: "length (swapped h data sz lo hi) = (hi - lo) * sz"
  by (induction hi) (simp_all add: swapped_def Suc_diff_le)

lemma swapped_empty [simp]: "hi \<le> lo \<Longrightarrow> swapped h data sz lo hi = []"
  by (simp add: swapped_def)

lemma swapped_Cons:
  "lo < hi \<Longrightarrow> swapped h data sz lo hi = rev (element h data sz lo) @ swapped h data sz (Suc lo) hi"
  by (simp add: swapped_def upt_conv_Cons)

lemma swapped_append:
  "lo \<le> m \<Longrightarrow> m \<le> hi \<Longrightarrow>
   swapped h data sz lo hi = swapped h data sz lo m @ swapped h data sz m hi"
proof -
  assume "lo \<le> m" "m \<le> hi"
  then have "[lo..<hi] = [lo..<m] @ [m..<hi]"
    by (metis le_Suc_ex upt_add_eq_append)
  then show ?thesis by (simp add: swapped_def)
qed

lemma region_mono: "(i::nat) \<le> j \<Longrightarrow> p + i * sz \<le> p + j * sz"
  by simp

lemma element_eqI:
  assumes "\<And>a. data + lo * sz \<le> a \<Longrightarrow> a < data + hi * sz \<Longrightarrow> h a = h' a"
    and "lo \<le> j" "j < hi"
  shows "element h data sz j = element h' data sz j"
  unfolding element_def
proof (rule peek_eqI)
  fix a assume a: "data + j * sz \<le> a" "a < data + j * sz + sz"
  have "data + lo * sz \<le> data + j * sz"
    using assms(2) by simp
  moreover have "data + j * sz + sz \<le> data + hi * sz"
    using region_mono [of "Suc j" hi data sz] assms(3) by simp
  ultimately show "h a = h' a"
    using a by (intro assms(1)) linarith+
qed

lemma swapped_eqI:
  assumes "\<And>a. data + lo * sz \<le> a \<Longrightarrow> a < data + hi * sz \<Longrightarrow> h a = h' a"
  shows "swapped h data sz lo hi = swapped h' data sz lo hi"
proof -
  have "element h data sz j = element h' data sz j" if "j \<in> set [lo..<hi]" for j
  proof -
    from that have "lo \<le> j" "j < hi" by simp_all
    with assms show ?thesis by (rule element_eqI)
  qed
  then have "map (\<lambda>j. rev (element h data sz j)) [lo..<hi] =
             map (\<lambda>j. rev (element h' data sz j)) [lo..<hi]"
    by (intro map_cong refl) simp
  then show ?thesis
    by (simp only: swapped_def)
qed

lemma copy_swap_from_eq:
  assumes "i \<le> batch"
    and "data + (offset + batch) * sz \<le> buffer \<or> buffer + batch * sz \<le> data + offset * sz"
  shows "copy_swap_from i host h buffer data offset batch sz =
         poke h (buffer + i * sz) (swapped h data sz (offset + i) (offset + batch))"
  using assms
proof (induction i host h buffer data offset batch sz rule: copy_swap_from.induct)
  case (1 i host h buffer data offset batch sz)
  show ?case
  proof (cases "i < batch")
    case False
    then show ?thesis
      by (subst copy_swap_from.simps) simp
  next
    case True
    define h2 where "h2 = poke h (buffer + i * sz) (rev (element h data sz (offset + i)))"
    have step: "copy_swap_from i host h buffer data offset batch sz =
                copy_swap_from (i + 1) host h2 buffer data offset batch sz"
      using True
      by (subst copy_swap_from.simps) (simp add: Let_def copy_element h2_def element_def)
    have IH: "copy_swap_from (i + 1) host h2 buffer data offset batch sz =
              poke h2 (buffer + (i + 1) * sz) (swapped h2 data sz (offset + (i + 1)) (offset + batch))"
      using True "1.prems"(2)
      by (intro "1.IH" [OF True refl refl refl, unfolded copy_element, folded element_def, folded h2_def]) simp_all
    have same: "swapped h2 data sz (offset + (i + 1)) (offset + batch) =
                swapped h data sz (offset + (i + 1)) (offset + batch)"
    proof (rule swapped_eqI)
      fix a
      assume a: "data + (offset + (i + 1)) * sz \<le> a" "a < data + (offset + batch) * sz"
      have b1: "buffer + (i + 1) * sz \<le> buffer + batch * sz"
        using True by (intro region_mono) simp
      have b2: "data + offset * sz \<le> data + (offset + (i + 1)) * sz"
        by (intro region_mono) simp
      have "a < buffer + i * sz \<or> buffer + i * sz + sz \<le> a"
        using "1.prems"(2) a b1 b2 by auto
      then show "h2 a = h a"
        by (simp add: h2_def poke_outside)
    qed
    have "copy_swap_from i host h buffer data offset batch sz =
          poke h2 (buffer + i * sz + sz) (swapped h data sz (offset + (i + 1)) (offset + batch))"
      unfolding step IH same by (simp add: add.commute add.left_commute)
    also have "\<dots> = poke h (buffer + i * sz)
        (rev (element h data sz (offset + i)) @ swapped h data sz (offset + (i + 1)) (offset + batch))"
      unfolding h2_def by (rule poke_poke_append) simp
    also have "\<dots> = poke h (buffer + i * sz) (swapped h data sz (offset + i) (offset + batch))"
      using True by (simp add: swapped_Cons)
    finally show ?thesis .
  qed
qed


lemma fwrite_eq:
  "fwrite h p sz n f =
     (min (room f) (sz * n) div sz,
      f\<lparr>content := content f @ take (room f) (peek h p (sz * n)),
        room := room f - sz * n\<rparr>)"
  by (simp add: fwrite_def Let_def min_def)

lemma fwrite_count_full: "0 < sz \<Longrightarrow> sz * n \<le> room f \<Longrightarrow> fst (fwrite h p sz n f) = n"
  by (simp add: fwrite_eq min_def)

lemma fwrite_count_short: "0 < sz \<Longrightarrow> room f < sz * n \<Longrightarrow> fst (fwrite h p sz n f) < n"
  by (simp add: fwrite_eq min_def div_less_iff_less_mult mult.commute)

lemma write_batches_spec:
  assumes sz: "0 < sz" and be: "0 < block_elems" and fit: "block_elems * sz \<le> buffer_size"
    and disj: "data + num * sz \<le> buffer \<or> buffer + buffer_size \<le> data"
  shows "\<exists>h1. write_batches host h f buffer data num sz block_elems offset =
           Some (if (num - offset) * sz \<le> room f then 0 else - 1,
                 f\<lparr>content := content f @ take (room f) (swapped h data sz offset num),
                   room := room f - (num - offset) * sz\<rparr>, h1) \<and>
           (\<forall>a. a < buffer \<or> buffer + buffer_size \<le> a \<longrightarrow> h1 a = h a)"
proof (induction "num - offset" arbitrary: offset h f rule: less_induct)
  case less
  show ?case
  proof (cases "offset < num")
    case False
    then have "write_batches host h f buffer data num sz block_elems offset = Some (0, f, h)"
      by (subst write_batches.simps) simp
    with False show ?thesis by simp
  next
    case True
    define batch where "batch = (if num - offset < block_elems then num - offset else block_elems)"
    define X where "X = swapped h data sz offset (offset + batch)"
    define h1 where "h1 = poke h buffer X"
    have batch: "0 < batch" "batch \<le> num - offset" "batch \<le> block_elems"
      using True be by (auto simp: batch_def)
    have bsz: "batch * sz \<le> buffer_size"
      using batch(3) fit by (meson le_trans mult_le_mono1)
    have top: "data + (offset + batch) * sz \<le> data + num * sz"
      using batch(2) True by (intro region_mono) simp
    have lenX: "length X = batch * sz"
      by (simp add: X_def)
    have local: "data + (offset + batch) * sz \<le> buffer \<or>
                 buffer + batch * sz \<le> data + offset * sz"
      using disj
    proof
      assume "data + num * sz \<le> buffer"
      with top show ?thesis by (meson le_trans)
    next
      assume "buffer + buffer_size \<le> data"
      moreover have "buffer + batch * sz \<le> buffer + buffer_size"
        using bsz by simp
      ultimately have "buffer + batch * sz \<le> data + offset * sz"
        by (meson le_trans le_add1)
      then show ?thesis ..
    qed
    have copy: "copy_swap_from 0 host h buffer data offset batch sz = h1"
      using copy_swap_from_eq [OF le0 local, of host h]
      by (simp add: h1_def X_def)
    have peekX: "peek h1 buffer (sz * batch) = X" "peek h1 buffer (batch * sz) = X"
      by (simp_all add: h1_def lenX mult.commute)
    have frame1: "h1 a = h a" if "a < buffer \<or> buffer + buffer_size \<le> a" for a
      using that bsz by (auto simp: h1_def lenX intro!: poke_outside)
    have split: "swapped h data sz offset num = X @ swapped h data sz (offset + batch) num"
      unfolding X_def using batch(2) True by (intro swapped_append) simp_all
    show ?thesis
    proof (cases "sz * batch \<le> room f")
      case short: False
      then have n: "fst (fwrite h1 buffer sz batch f) \<noteq> batch"
        using fwrite_count_short [OF sz, of f batch h1 buffer] by simp
      have "write_batches host h f buffer data num sz block_elems offset =
            Some (- 1, snd (fwrite h1 buffer sz batch f), h1)"
        using True n
        by (subst write_batches.simps)
           (simp add: Let_def batch_def [symmetric] copy split_beta)
      moreover have "\<not> (num - offset) * sz \<le> room f"
      proof
        assume a: "(num - offset) * sz \<le> room f"
        have b: "batch * sz \<le> (num - offset) * sz"
          using batch(2) by (rule mult_le_mono1)
        have "sz * batch \<le> room f"
          using le_trans [OF b a] by (simp only: mult.commute [of sz batch])
        with short show False ..
      qed
      moreover have "take (room f) (swapped h data sz offset num) = take (room f) X"
        using short by (simp add: split lenX mult.commute)
      moreover have "room f - (num - offset) * sz = room f - sz * batch"
        using short \<open>\<not> (num - offset) * sz \<le> room f\<close> by simp
      ultimately show ?thesis
        using frame1 by (simp add: fwrite_eq peekX)
    next
      case full: True
      define f1 where "f1 = f\<lparr>content := content f @ X, room := room f - sz * batch\<rparr>"
      have fw: "fwrite h1 buffer sz batch f = (batch, f1)"
        using full sz by (simp add: fwrite_eq peekX f1_def lenX mult.commute min_def)
      have step: "write_batches host h f buffer data num sz block_elems offset =
                  write_batches host h1 f1 buffer data num sz block_elems (offset + batch)"
        using True
        by (subst write_batches.simps)
           (simp add: Let_def batch_def [symmetric] copy fw)
      have "num - (offset + batch) < num - offset"
        using True batch(1) by simp
      from less [OF this, of h1 f1] obtain h2 where
        rec: "write_batches host h1 f1 buffer data num sz block_elems (offset + batch) =
           Some (if (num - (offset + batch)) * sz \<le> room f1 then 0 else - 1,
                 f1\<lparr>content := content f1 @ take (room f1) (swapped h1 data sz (offset + batch) num),
                   room := room f1 - (num - (offset + batch)) * sz\<rparr>, h2)"
        and frame2: "\<forall>a. a < buffer \<or> buffer + buffer_size \<le> a \<longrightarrow> h2 a = h1 a"
        by blast
      have same: "swapped h1 data sz (offset + batch) num = swapped h data sz (offset + batch) num"
      proof (rule swapped_eqI)
        fix a assume "data + (offset + batch) * sz \<le> a" "a < data + num * sz"
        then have "a < buffer \<or> buffer + buffer_size \<le> a"
          using disj by auto
        then show "h1 a = h a" by (rule frame1)
      qed
      have tot: "(num - offset) * sz = sz * batch + (num - (offset + batch)) * sz"
      proof -
        have "num - offset = batch + (num - (offset + batch))"
          using batch(2) by simp
        then have "(num - offset) * sz = (batch + (num - (offset + batch))) * sz"
          by (rule arg_cong)
        then show ?thesis
          by (simp only: add_mult_distrib mult.commute [of sz batch])
      qed
      have cond: "((num - (offset + batch)) * sz \<le> room f1) = ((num - offset) * sz \<le> room f)"
        using full by (auto simp: f1_def tot)
      have cont: "content f1 @ take (room f1) (swapped h1 data sz (offset + batch) num) =
                  content f @ take (room f) (swapped h data sz offset num)"
        using full by (simp add: f1_def same split lenX mult.commute)
      have rm: "room f1 - (num - (offset + batch)) * sz = room f - (num - offset) * sz"
        by (simp add: f1_def tot)
      have "write_batches host h f buffer data num sz block_elems offset =
            Some (if (num - offset) * sz \<le> room f then 0 else - 1,
                 f\<lparr>content := content f @ take (room f) (swapped h data sz offset num),
                   room := room f - (num - offset) * sz\<rparr>, h2)"
        unfolding step rec cond cont rm by (simp add: f1_def)
      moreover have "\<forall>a. a < buffer \<or> buffer + buffer_size \<le> a \<longrightarrow> h2 a = h a"
        using frame1 frame2 by simp
      ultimately show ?thesis by blast
    qed
  qed
qed


lemma write_batches_diverges:
  assumes "offset < num"
  shows "write_batches host h f buffer data num sz 0 offset = None"
proof (rule ccontr)
  assume "write_batches host h f buffer data num sz 0 offset \<noteq> None"
  then obtain y where y: "write_batches host h f buffer data num sz 0 offset = Some y"
    by blast
  have "\<not> (0 = (0::nat) \<and> offset < num)"
  proof (rule write_batches.raw_induct
      [where P = "\<lambda>host h f buffer data num sz block_elems offset y.
                    \<not> (block_elems = 0 \<and> offset < num)", OF _ y])
    fix wb :: "endian_t \<Rightarrow> heap \<Rightarrow> stream \<Rightarrow> addr \<Rightarrow> addr \<Rightarrow> nat \<Rightarrow> nat \<Rightarrow> nat \<Rightarrow> nat
               \<Rightarrow> (int \<times> stream \<times> heap) option"
    fix host h f buffer data num sz block_elems offset and y :: "int \<times> stream \<times> heap"
    assume IH: "\<And>host h f buffer data num sz block_elems offset y.
        wb host h f buffer data num sz block_elems offset = Some y \<Longrightarrow>
        \<not> (block_elems = 0 \<and> offset < num)"
    assume body: "(if offset < num then
        (let batch = (if num - offset < block_elems then num - offset else block_elems);
             h1 = copy_swap_from 0 host h buffer data offset batch sz;
             (n, f1) = fwrite h1 buffer sz batch f
         in if n \<noteq> batch then Some (- 1, f1, h1)
            else wb host h1 f1 buffer data num sz block_elems (offset + batch))
      else Some (0, f, h)) = Some y"
    show "\<not> (block_elems = 0 \<and> offset < num)"
    proof
      assume a: "block_elems = 0 \<and> offset < num"
      have c: "copy_swap_from 0 host h buffer data offset 0 sz = h"
        by (subst copy_swap_from.simps) simp
      from body a have "wb host h (snd (fwrite h buffer sz 0 f)) buffer data num sz 0 offset = Some y"
        by (simp add: c fwrite_eq)
      from IH [OF this] a show False by simp
    qed
  qed
  with assms show False by simp
qed

lemma chunks_0 [simp]: "chunks sz 0 xs = []"
  by (simp add: chunks_def)

lemma chunks_Suc: "chunks sz (Suc k) xs = take sz xs # chunks sz k (drop sz xs)"
proof -
  have "[0..<Suc k] = 0 # map Suc [0..<k]"
    by (simp add: upt_conv_Cons map_Suc_upt del: upt_Suc)
  then show ?thesis
    by (simp add: chunks_def comp_def add.commute del: upt_Suc)
qed

lemma converted_0 [simp]: "converted s sz 0 xs = []"
  by (simp add: converted_def)

lemma converted_Suc:
  "converted s sz (Suc k) xs = (if s then rev (take sz xs) else take sz xs) @ converted s sz k (drop sz xs)"
  by (simp add: converted_def chunks_Suc)

lemma length_converted:
  "k * sz \<le> length xs \<Longrightarrow> length (converted s sz k xs) = k * sz"
  by (induction k arbitrary: xs) (simp_all add: converted_Suc)


lemma fread_bytes:
  "fread h p 1 sz f =
     (min sz (length (content f) - rpos f),
      f\<lparr>rpos := rpos f + min sz (length (content f) - rpos f)\<rparr>,
      poke h p (take sz (drop (rpos f) (content f))))"
  "fread h p (Suc 0) sz f =
     (min sz (length (content f) - rpos f),
      f\<lparr>rpos := rpos f + min sz (length (content f) - rpos f)\<rparr>,
      poke h p (take sz (drop (rpos f) (content f))))"
  by (simp_all add: fread_def Let_def min.commute)

lemma read_loop_spec:
  assumes sz: "0 < sz"
  shows "read_loop i host swap h f data num sz =
     (if num - i \<le> (length (content f) - rpos f) div sz
      then (0, f\<lparr>rpos := rpos f + (num - i) * sz\<rparr>,
            poke h (data + i * sz) (converted swap sz (num - i) (drop (rpos f) (content f))))
      else (- 1, f\<lparr>rpos := rpos f + (length (content f) - rpos f)\<rparr>,
            poke h (data + i * sz)
              (converted swap sz ((length (content f) - rpos f) div sz) (drop (rpos f) (content f)) @
               drop ((length (content f) - rpos f) div sz * sz) (drop (rpos f) (content f)))))"
  using sz
proof (induction i host swap h f data num sz rule: read_loop.induct)
  case (1 i host swap h f data num sz)
  define rest where "rest = drop (rpos f) (content f)"
  define avail where "avail = length (content f) - rpos f"
  have len: "length rest = avail"
    by (simp add: rest_def avail_def)
  show ?case
    unfolding rest_def [symmetric] avail_def [symmetric]
  proof (cases "i < num")
    case False
    then have "read_loop i host swap h f data num sz = (0, f, h)"
      by (subst read_loop.simps) simp
    with False show "read_loop i host swap h f data num sz =
     (if num - i \<le> avail div sz
      then (0, f\<lparr>rpos := rpos f + (num - i) * sz\<rparr>,
            poke h (data + i * sz) (converted swap sz (num - i) rest))
      else (- 1, f\<lparr>rpos := rpos f + avail\<rparr>,
            poke h (data + i * sz)
              (converted swap sz (avail div sz) rest @ drop (avail div sz * sz) rest)))"
      by simp
  next
    case True
    show "read_loop i host swap h f data num sz =
     (if num - i \<le> avail div sz
      then (0, f\<lparr>rpos := rpos f + (num - i) * sz\<rparr>,
            poke h (data + i * sz) (converted swap sz (num - i) rest))
      else (- 1, f\<lparr>rpos := rpos f + avail\<rparr>,
            poke h (data + i * sz)
              (converted swap sz (avail div sz) rest @ drop (avail div sz * sz) rest)))"
    proof (cases "avail < sz")
      case short: True
      then have "read_loop i host swap h f data num sz =
                 (- 1, f\<lparr>rpos := rpos f + avail\<rparr>, poke h (data + i * sz) rest)"
        using True
        by (subst read_loop.simps)
           (simp add: fread_bytes Let_def avail_def [symmetric] rest_def [symmetric] len min_def)
      moreover have "avail div sz = 0"
        using short by simp
      ultimately show ?thesis
        using True by simp
    next
      case full: False
      define bs where "bs = take sz rest"
      define cv where "cv = (if swap then rev bs else bs)"
      define f1 where "f1 = f\<lparr>rpos := rpos f + sz\<rparr>"
      define h1 where "h1 = poke h (data + i * sz) bs"
      define h2 where "h2 = (if swap then convert_endian host h1 (data + i * sz) sz else h1)"
      have lbs: "length bs = sz"
        using full by (simp add: bs_def len)
      have fr: "fread h (data + i * sz) 1 sz f = (sz, f1, h1)"
               "fread h (data + i * sz) (Suc 0) sz f = (sz, f1, h1)"
        using full
        by (simp_all add: fread_bytes avail_def [symmetric] rest_def [symmetric] min_def
            f1_def h1_def bs_def)
      have h2: "h2 = poke h (data + i * sz) cv"
        by (simp add: h2_def h1_def cv_def convert_endian_eq lbs)
      have step: "read_loop i host swap h f data num sz =
                  read_loop (i + 1) host swap h2 f1 data num sz"
        using True by (subst read_loop.simps) (simp add: fr Let_def h2_def)
      have rest1: "drop (rpos f1) (content f1) = drop sz rest"
        by (simp add: f1_def rest_def add.commute)
      have avail1: "length (content f1) - rpos f1 = avail - sz"
        by (simp add: f1_def avail_def)
      have k: "avail div sz = Suc ((avail - sz) div sz)"
        using full \<open>0 < sz\<close> by (simp add: le_div_geq)
      obtain w where w: "num - i = Suc w" "num - (i + 1) = w"
        using True by (metis Suc_diff_Suc Suc_eq_plus1)
      have rec: "read_loop (i + 1) host swap h2 f1 data num sz =
         (if w \<le> (avail - sz) div sz
          then (0, f1\<lparr>rpos := rpos f1 + w * sz\<rparr>,
                poke h2 (data + (i + 1) * sz) (converted swap sz w (drop sz rest)))
          else (- 1, f1\<lparr>rpos := rpos f1 + (avail - sz)\<rparr>,
                poke h2 (data + (i + 1) * sz)
                  (converted swap sz ((avail - sz) div sz) (drop sz rest) @
                   drop ((avail - sz) div sz * sz) (drop sz rest))))"
        unfolding w(2) [symmetric] rest1 [symmetric] avail1 [symmetric] h2_def
        by (rule "1.IH" [OF True refl fr(1) [symmetric] refl refl _ \<open>0 < sz\<close>]) simp
      have lcv: "length cv = sz"
        by (simp add: cv_def lbs)
      have pk: "poke h2 (data + (i + 1) * sz) ys = poke h (data + i * sz) (cv @ ys)" for ys
        using poke_poke_append [OF lcv, of h "data + i * sz" ys]
        by (simp add: h2 add.commute add.left_commute)
      have cS: "converted swap sz (Suc m) rest = cv @ converted swap sz m (drop sz rest)" for m
        by (simp add: converted_Suc cv_def bs_def)
      have dr: "drop ((avail - sz) div sz * sz) (drop sz rest) = drop (avail div sz * sz) rest"
        by (simp add: k add.commute)
      have r1: "f1\<lparr>rpos := rpos f1 + w * sz\<rparr> = f\<lparr>rpos := rpos f + Suc w * sz\<rparr>"
        by (simp add: f1_def)
      have r2: "f1\<lparr>rpos := rpos f1 + (avail - sz)\<rparr> = f\<lparr>rpos := rpos f + avail\<rparr>"
        using full by (simp add: f1_def)
      have c: "(w \<le> (avail - sz) div sz) = (Suc w \<le> avail div sz)"
        by (simp add: k)
      have "read_loop i host swap h f data num sz =
         (if Suc w \<le> avail div sz
          then (0, f\<lparr>rpos := rpos f + Suc w * sz\<rparr>,
                poke h (data + i * sz) (cv @ converted swap sz w (drop sz rest)))
          else (- 1, f\<lparr>rpos := rpos f + avail\<rparr>,
                poke h (data + i * sz)
                  (cv @ converted swap sz ((avail - sz) div sz) (drop sz rest) @
                   drop (avail div sz * sz) rest)))"
        unfolding step rec pk r1 r2 c dr ..
      also have "\<dots> =
         (if Suc w \<le> avail div sz
          then (0, f\<lparr>rpos := rpos f + Suc w * sz\<rparr>,
                poke h (data + i * sz) (converted swap sz (Suc w) rest))
          else (- 1, f\<lparr>rpos := rpos f + avail\<rparr>,
                poke h (data + i * sz)
                  (converted swap sz (avail div sz) rest @ drop (avail div sz * sz) rest)))"
        by (simp only: cS k append_assoc)
      finally show ?thesis
        unfolding w(1) .
    qed
  qed
qed

section \<open>The write and read paths\<close>

lemma fwrite_count_le: "fst (fwrite h p sz n f) \<le> n"
proof (cases "sz = 0")
  case True
  then show ?thesis by (simp add: fwrite_eq)
next
  case False
  have "min (room f) (sz * n) div sz \<le> (sz * n) div sz"
    by (rule div_le_mono) simp
  with False show ?thesis by (simp add: fwrite_eq)
qed

lemma write_endian_None: "write_endian host buffer h None data num sz e = Some (- 1, None, h)"
  by (simp add: write_endian_def)

lemma write_endian_Some:
  "write_endian host buffer h (Some f) data num sz e =
     (if data = 0 \<or> sz = 0 \<or> num = 0 then Some (- 1, Some f, h)
      else if e = host then
        Some (if fst (fwrite h data sz num f) = num then 0 else - 1,
              Some (snd (fwrite h data sz num f)), h)
      else if buffer = 0 then Some (- 1, Some f, h)
      else
        (case write_batches host h f buffer data num sz (buffer_size div sz) 0 of
           None \<Rightarrow> None
         | Some (r, f1, h1) \<Rightarrow> Some (r, Some f1, h1)))"
  by (cases host; cases e)
     (simp_all add: write_endian_def is_little_endian_eq Let_def split_beta)

lemma read_endian_None: "read_endian host h None data num sz e = (- 1, None, h)"
  by (simp add: read_endian_def)

lemma read_endian_Some:
  "read_endian host h (Some f) data num sz e =
     (if data = 0 \<or> sz = 0 then (- 1, Some f, h)
      else (case read_loop 0 host (e \<noteq> host) h f data num sz of
              (r, f1, h1) \<Rightarrow> (r, Some f1, h1)))"
  by (cases host; cases e)
     (simp_all add: read_endian_def is_little_endian_eq Let_def)

lemma write_endian_swap_path:
  assumes "data \<noteq> 0" "0 < sz" "0 < num" "buffer \<noteq> 0" "target_endian \<noteq> host"
    and "sz \<le> buffer_size"
    and "data + num * sz \<le> buffer \<or> buffer + buffer_size \<le> data"
  shows "\<exists>h1. write_endian host buffer h (Some f) data num sz target_endian =
           Some (if num * sz \<le> room f then 0 else - 1,
                 Some (f\<lparr>content := content f @ take (room f) (swapped h data sz 0 num),
                         room := room f - num * sz\<rparr>), h1) \<and>
           (\<forall>a. a < buffer \<or> buffer + buffer_size \<le> a \<longrightarrow> h1 a = h a)"
proof -
  have be: "0 < buffer_size div sz"
    using assms(2,6) by (simp add: div_greater_zero_iff)
  have fit: "buffer_size div sz * sz \<le> buffer_size"
    by simp
  from write_batches_spec [OF assms(2) be fit assms(7), of host h f 0]
  obtain h1 where
    wb: "write_batches host h f buffer data num sz (buffer_size div sz) 0 =
           Some (if num * sz \<le> room f then 0 else - 1,
                 f\<lparr>content := content f @ take (room f) (swapped h data sz 0 num),
                   room := room f - num * sz\<rparr>, h1)"
    and fr: "\<forall>a. a < buffer \<or> buffer + buffer_size \<le> a \<longrightarrow> h1 a = h a"
    by auto
  have "write_endian host buffer h (Some f) data num sz target_endian =
           Some (if num * sz \<le> room f then 0 else - 1,
                 Some (f\<lparr>content := content f @ take (room f) (swapped h data sz 0 num),
                         room := room f - num * sz\<rparr>), h1)"
    using assms(1-5) by (simp add: write_endian_Some wb)
  with fr show ?thesis by blast
qed

lemma write_endian_diverges:
  assumes "data \<noteq> 0" "0 < num" "buffer \<noteq> 0" "target_endian \<noteq> host" "buffer_size < sz"
  shows "write_endian host buffer h (Some f) data num sz target_endian = None"
proof -
  have "buffer_size div sz = 0"
    using assms(5) by simp
  moreover have "sz \<noteq> 0"
    using assms(5) by auto
  ultimately show ?thesis
    using assms(1-4)
    by (simp add: write_endian_Some write_batches_diverges)
qed

lemma write_endian_frame:
  assumes "write_endian host buffer h file data num sz target_endian = Some (r, file', h')"
    and "data + num * sz \<le> buffer \<or> buffer + buffer_size \<le> data"
    and "a < buffer \<or> buffer + buffer_size \<le> a"
  shows "h' a = h a"
proof (cases "file")
  case None
  with assms(1) show ?thesis by (simp add: write_endian_None)
next
  case (Some f)
  show ?thesis
  proof (cases "data = 0 \<or> sz = 0 \<or> num = 0 \<or> target_endian = host \<or> buffer = 0")
    case True
    with assms(1) Some show ?thesis
      by (auto simp: write_endian_Some split: if_splits)
  next
    case False
    then have v: "data \<noteq> 0" "0 < sz" "0 < num" "buffer \<noteq> 0" "target_endian \<noteq> host"
      by simp_all
    show ?thesis
    proof (cases "sz \<le> buffer_size")
      case True
      from write_endian_swap_path [OF v True assms(2), of h f] assms(1,3) Some
      show ?thesis by auto
    next
      case False
      then have "write_endian host buffer h (Some f) data num sz target_endian = None"
        using v by (intro write_endian_diverges) simp_all
      with assms(1) Some show ?thesis by simp
    qed
  qed
qed

lemma write_endian_returns:
  assumes "sz \<le> buffer_size"
    and "data + num * sz \<le> buffer \<or> buffer + buffer_size \<le> data"
  shows "write_endian host buffer h file data num sz target_endian \<noteq> None"
proof (cases "file")
  case None
  then show ?thesis by (simp add: write_endian_None)
next
  case (Some f)
  show ?thesis
  proof (cases "data = 0 \<or> sz = 0 \<or> num = 0 \<or> target_endian = host \<or> buffer = 0")
    case True
    with Some show ?thesis
      by (auto simp: write_endian_Some)
  next
    case False
    then have v: "data \<noteq> 0" "0 < sz" "0 < num" "buffer \<noteq> 0" "target_endian \<noteq> host"
      by simp_all
    from write_endian_swap_path [OF v assms, of h f] Some
    show ?thesis by auto
  qed
qed

section \<open>Chunks of a byte stream\<close>

lemma peek_poke_inside:
  "i + n \<le> length bs \<Longrightarrow> peek (poke h p bs) (p + i) n = take n (drop i bs)"
  by (rule nth_equalityI) (auto simp: poke_def)

lemma nth_chunk_concat:
  "\<forall>x \<in> set xss. length x = sz \<Longrightarrow> j < length xss \<Longrightarrow>
   take sz (drop (j * sz) (concat xss @ ys)) = xss ! j"
proof (induction xss arbitrary: j)
  case Nil
  then show ?case by simp
next
  case (Cons x xss)
  show ?case
  proof (cases j)
    case 0
    with Cons.prems show ?thesis by simp
  next
    case (Suc i)
    with Cons.prems have "take sz (drop (i * sz) (concat xss @ ys)) = xss ! i"
      by (intro Cons.IH) simp_all
    with Suc Cons.prems show ?thesis by simp
  qed
qed

lemma chunks_concat:
  assumes "\<forall>x \<in> set xss. length x = sz"
  shows "chunks sz (length xss) (concat xss @ ys) = xss"
  by (rule nth_equalityI)
     (simp_all add: chunks_def nth_chunk_concat [OF assms] del: drop_append take_append)

lemma length_chunks [simp]: "length (chunks sz k xs) = k"
  by (simp add: chunks_def)

lemma chunk_length: "k * sz \<le> length xs \<Longrightarrow> c \<in> set (chunks sz k xs) \<Longrightarrow> length c = sz"
proof -
  assume k: "k * sz \<le> length xs" and "c \<in> set (chunks sz k xs)"
  then obtain j where j: "j < k" "c = take sz (drop (j * sz) xs)"
    by (auto simp: chunks_def)
  have "Suc j * sz \<le> k * sz"
    using j(1) by (intro mult_le_mono1) simp
  with k have "j * sz + sz \<le> length xs" by simp
  with j(2) show ?thesis by simp
qed

lemma nth_converted:
  assumes "k * sz \<le> length xs" "j < k"
  shows "take sz (drop (j * sz) (converted s sz k xs @ ys)) =
         (if s then rev (take sz (drop (j * sz) xs)) else take sz (drop (j * sz) xs))"
proof -
  let ?xss = "map (\<lambda>c. if s then rev c else c) (chunks sz k xs)"
  have "\<forall>x \<in> set ?xss. length x = sz"
    using chunk_length [OF assms(1)] by auto
  from nth_chunk_concat [OF this, of j ys] assms(2)
  show ?thesis by (simp add: converted_def chunks_def)
qed

lemma element_concat: "concat (map (element h data sz) [0..<n]) = peek h data (n * sz)"
proof (induction n)
  case 0
  then show ?case by simp
next
  case (Suc n)
  have "peek h data (n * sz + sz) = peek h data (n * sz) @ peek h (data + n * sz) sz"
    by (rule peek_add)
  with Suc show ?case
    by (simp add: element_def add.commute)
qed

lemma chunks_peek: "chunks sz n (peek h data (n * sz)) = map (element h data sz) [0..<n]"
proof -
  have "chunks sz (length (map (element h data sz) [0..<n]))
          (concat (map (element h data sz) [0..<n]) @ []) = map (element h data sz) [0..<n]"
    by (rule chunks_concat) simp
  then show ?thesis by (simp add: element_concat)
qed

lemma swapped_chunks: "swapped h data sz 0 n = converted True sz n (peek h data (n * sz))"
  by (simp add: swapped_def converted_def chunks_peek comp_def)

lemma converted_False: "k * sz \<le> length xs \<Longrightarrow> converted False sz k xs = take (k * sz) xs"
proof (induction k arbitrary: xs)
  case 0
  then show ?case by simp
next
  case (Suc k)
  then have "converted False sz k (drop sz xs) = take (k * sz) (drop sz xs)"
    by (intro Suc.IH) simp
  then show ?case
    by (simp add: converted_Suc take_add [symmetric] add.commute)
qed

lemma converted_swapped:
  "converted True sz n (swapped h data sz 0 n @ ys) = peek h data (n * sz)"
proof -
  let ?xss = "map (\<lambda>j. rev (element h data sz j)) [0..<n]"
  have "chunks sz (length ?xss) (concat ?xss @ ys) = ?xss"
    by (rule chunks_concat) simp
  then have "chunks sz n (swapped h data sz 0 n @ ys) = ?xss"
    by (simp add: swapped_def)
  then show ?thesis
    by (simp add: converted_def comp_def element_concat)
qed

lemma read_endian_spec:
  assumes "data \<noteq> 0" "0 < sz"
  shows "read_endian host h (Some f) data num sz e =
     (if num \<le> (length (content f) - rpos f) div sz
      then (0, Some (f\<lparr>rpos := rpos f + num * sz\<rparr>),
            poke h data (converted (e \<noteq> host) sz num (drop (rpos f) (content f))))
      else (- 1, Some (f\<lparr>rpos := rpos f + (length (content f) - rpos f)\<rparr>),
            poke h data
              (converted (e \<noteq> host) sz ((length (content f) - rpos f) div sz)
                 (drop (rpos f) (content f)) @
               drop ((length (content f) - rpos f) div sz * sz) (drop (rpos f) (content f)))))"
  using assms by (simp add: read_endian_Some read_loop_spec [OF assms(2)])

lemma write_endian_success:
  assumes "data \<noteq> 0" "0 < sz" "0 < num" "buffer \<noteq> 0" "sz \<le> buffer_size"
    and "data + num * sz \<le> buffer \<or> buffer + buffer_size \<le> data"
    and "num * sz \<le> room f"
  shows "\<exists>h1. write_endian host buffer h (Some f) data num sz e =
           Some (0, Some (f\<lparr>content := content f @ converted (e \<noteq> host) sz num (peek h data (num * sz)),
                            room := room f - num * sz\<rparr>), h1) \<and>
           (\<forall>a. a < buffer \<or> buffer + buffer_size \<le> a \<longrightarrow> h1 a = h a)"
proof (cases "e = host")
  case True
  have "fwrite h data sz num f =
        (num, f\<lparr>content := content f @ peek h data (num * sz), room := room f - num * sz\<rparr>)"
    using assms(2,7) by (simp add: fwrite_eq mult.commute min_def)
  moreover have "converted False sz num (peek h data (num * sz)) = peek h data (num * sz)"
    by (simp add: converted_False)
  ultimately show ?thesis
    using True assms(1-3) by (simp add: write_endian_Some)
next
  case False
  from write_endian_swap_path [OF assms(1-4) False assms(5,6), of h f] assms(7) False
  show ?thesis
    by (simp add: swapped_chunks length_converted)
qed

lemma length_word_bytes [simp]: "length (word_bytes host n w) = n"
  by (cases host) (simp_all add: word_bytes_def)

lemma converted_word_bytes:
  "converted (e \<noteq> host) n (length ws) (concat (map (word_bytes host n) ws)) =
   concat (map (word_bytes e n) ws)"
proof -
  let ?xss = "map (word_bytes host n) ws"
  have "chunks n (length ?xss) (concat ?xss @ []) = ?xss"
    by (rule chunks_concat) simp
  then have c: "chunks n (length ws) (concat ?xss) = ?xss"
    by simp
  have "(\<lambda>w. if e \<noteq> host then rev (word_bytes host n w) else word_bytes host n w) =
        (word_bytes e n :: 'a word \<Rightarrow> byte list)"
    by (rule ext) (cases host; cases e; simp add: word_bytes_def)
  then have "map ((\<lambda>c. if e \<noteq> host then rev c else c) \<circ> word_bytes host n) ws =
             map (word_bytes e n) ws"
    by (simp add: comp_def)
  then show ?thesis
    by (simp only: converted_def c map_map)
qed

section \<open>Argument validation\<close>

lemma read_loop_none: "read_loop 0 host swap h f data 0 sz = (0, f, h)"
  by (subst read_loop.simps) simp

text \<open>
  Claim C5. \<open>write_be\<close> and \<open>write_le\<close> return the error value \<open>-1\<close> when the stream
  handle is absent, the data pointer is null, the element size is 0, or the element
  count is 0. The call returns at once: the stream and the memory are as they were.
\<close>

theorem write_rejects_invalid_arguments:
  assumes "file = None \<or> data = 0 \<or> sz = 0 \<or> num = 0"
  shows "write_be host buffer h file data num sz = Some (- 1, file, h) \<and>
         write_le host buffer h file data num sz = Some (- 1, file, h)"
  using assms by (cases "file") (auto simp: write_be_def write_le_def write_endian_def)

theorem write_rejects_invalid_arguments_witness:
  "write_be ENDIAN_LITTLE 1000 (heap_of 16 [1, 2]) None 16 1 2 = Some (- 1, None, heap_of 16 [1, 2]) \<and>
   write_le ENDIAN_BIG 1000 (heap_of 16 [1, 2]) (Some (fresh 8)) 0 1 2 =
     Some (- 1, Some (fresh 8), heap_of 16 [1, 2]) \<and>
   write_be ENDIAN_BIG 1000 (heap_of 16 [1, 2]) (Some (fresh 8)) 16 1 0 =
     Some (- 1, Some (fresh 8), heap_of 16 [1, 2]) \<and>
   write_le ENDIAN_LITTLE 1000 (heap_of 16 [1, 2]) (Some (fresh 8)) 16 0 2 =
     Some (- 1, Some (fresh 8), heap_of 16 [1, 2])"
  using write_rejects_invalid_arguments [of None 16 2 1 ENDIAN_LITTLE 1000 "heap_of 16 [1, 2]"]
    write_rejects_invalid_arguments [of "Some (fresh 8)" 0 2 1 ENDIAN_BIG 1000 "heap_of 16 [1, 2]"]
    write_rejects_invalid_arguments [of "Some (fresh 8)" 16 0 1 ENDIAN_BIG 1000 "heap_of 16 [1, 2]"]
    write_rejects_invalid_arguments [of "Some (fresh 8)" 16 2 0 ENDIAN_LITTLE 1000 "heap_of 16 [1, 2]"]
  by simp

text \<open>
  Claim C6. \<open>read_be\<close> and \<open>read_le\<close> fail when the stream handle is absent, the
  destination pointer is null or the size is 0; with valid arguments and \<open>num = 0\<close> they
  return success and leave the stream (its read position included) and the memory as
  they were; \<open>write_be\<close> and \<open>write_le\<close> reject \<open>num = 0\<close>.
\<close>

theorem read_argument_checks:
  "(file = None \<or> data = 0 \<or> sz = 0 \<longrightarrow>
      read_be host h file data num sz = (- 1, file, h) \<and>
      read_le host h file data num sz = (- 1, file, h)) \<and>
   (data \<noteq> 0 \<and> sz \<noteq> 0 \<longrightarrow>
      read_be host h (Some f) data 0 sz = (0, Some f, h) \<and>
      read_le host h (Some f) data 0 sz = (0, Some f, h)) \<and>
   write_be host buffer h file data 0 sz = Some (- 1, file, h) \<and>
   write_le host buffer h file data 0 sz = Some (- 1, file, h)"
  by (cases "file")
     (auto simp: read_be_def read_le_def read_endian_def read_loop_none
        write_be_def write_le_def write_endian_def)

theorem read_argument_checks_witness:
  "read_be ENDIAN_LITTLE (heap_of 16 [1, 2]) None 16 1 2 = (- 1, None, heap_of 16 [1, 2]) \<and>
   read_le ENDIAN_LITTLE (heap_of 16 [1, 2]) None 16 1 2 = (- 1, None, heap_of 16 [1, 2]) \<and>
   read_be ENDIAN_LITTLE (heap_of 16 [1, 2]) (Some \<lparr>content = [7, 8], rpos = 0, room = 0\<rparr>) 16 0 2 =
     (0, Some \<lparr>content = [7, 8], rpos = 0, room = 0\<rparr>, heap_of 16 [1, 2]) \<and>
   read_le ENDIAN_LITTLE (heap_of 16 [1, 2]) (Some \<lparr>content = [7, 8], rpos = 0, room = 0\<rparr>) 16 0 2 =
     (0, Some \<lparr>content = [7, 8], rpos = 0, room = 0\<rparr>, heap_of 16 [1, 2]) \<and>
   write_be ENDIAN_LITTLE 1000 (heap_of 16 [1, 2]) None 16 0 2 = Some (- 1, None, heap_of 16 [1, 2]) \<and>
   write_le ENDIAN_LITTLE 1000 (heap_of 16 [1, 2]) None 16 0 2 = Some (- 1, None, heap_of 16 [1, 2])"
  using read_argument_checks [of None 16 2 ENDIAN_LITTLE "heap_of 16 [1, 2]" 1
      "\<lparr>content = [7, 8], rpos = 0, room = 0\<rparr>" 1000]
  by simp

text \<open>
  Claim C10. A write that fails before any I/O leaves the stream as it was: with a null
  data pointer, size 0 or count 0, with an absent stream handle, and on the swap path
  when the scratch buffer could not be allocated (\<open>buffer = 0\<close>). A read that fails its
  argument check leaves the memory, and so the destination buffer, as it was. Both
  return \<open>-1\<close>.
\<close>

theorem failure_before_io_has_no_effect:
  "(data = 0 \<or> sz = 0 \<or> num = 0 \<longrightarrow>
      write_endian host buffer h file data num sz target_endian = Some (- 1, file, h)) \<and>
   (data \<noteq> 0 \<and> sz \<noteq> 0 \<and> num \<noteq> 0 \<and> target_endian \<noteq> host \<and> buffer = 0 \<longrightarrow>
      write_endian host buffer h (Some f) data num sz target_endian = Some (- 1, Some f, h)) \<and>
   write_endian host buffer h None data num sz target_endian = Some (- 1, None, h) \<and>
   (file = None \<or> data = 0 \<or> sz = 0 \<longrightarrow>
      read_endian host h file data num sz source_endian = (- 1, file, h))"
  by (cases "file"; cases host; cases target_endian)
     (auto simp: write_endian_def read_endian_def is_little_endian_eq)

theorem failure_before_io_has_no_effect_witness:
  "write_endian ENDIAN_LITTLE 1000 (heap_of 16 [1, 2]) (Some (fresh 8)) 16 0 2 ENDIAN_BIG =
     Some (- 1, Some (fresh 8), heap_of 16 [1, 2]) \<and>
   write_endian ENDIAN_LITTLE 0 (heap_of 16 [1, 2]) (Some (fresh 8)) 16 1 2 ENDIAN_BIG =
     Some (- 1, Some (fresh 8), heap_of 16 [1, 2]) \<and>
   write_endian ENDIAN_LITTLE 0 (heap_of 16 [1, 2]) None 16 1 2 ENDIAN_BIG =
     Some (- 1, None, heap_of 16 [1, 2]) \<and>
   read_endian ENDIAN_LITTLE (heap_of 16 [1, 2]) (Some \<lparr>content = [7, 8], rpos = 0, room = 0\<rparr>) 0 1 2
       ENDIAN_BIG =
     (- 1, Some \<lparr>content = [7, 8], rpos = 0, room = 0\<rparr>, heap_of 16 [1, 2])"
  using failure_before_io_has_no_effect
      [of 16 2 0 ENDIAN_LITTLE 1000 "heap_of 16 [1, 2]" "Some (fresh 8)" ENDIAN_BIG]
    failure_before_io_has_no_effect
      [of 16 2 1 ENDIAN_LITTLE 0 "heap_of 16 [1, 2]" _ ENDIAN_BIG "fresh 8"]
    failure_before_io_has_no_effect
      [of 0 2 1 ENDIAN_LITTLE _ "heap_of 16 [1, 2]" "Some \<lparr>content = [7, 8], rpos = 0, room = 0\<rparr>"
          _ _ ENDIAN_BIG]
  by simp

section \<open>The byte swap\<close>

text \<open>
  Claim C8. Applying \<open>convert_endian\<close> twice to an element gives back the original
  memory, for every element size (1, 2, 4 and 8, and odd sizes such as 3 and 5, among
  them); for size 1 one application already changes nothing.
\<close>

theorem convert_endian_twice:
  "convert_endian host (convert_endian host h elem sz) elem sz = h \<and>
   convert_endian host h elem 1 = h"
proof
  have "poke (poke h elem (rev (peek h elem sz))) elem (peek h elem sz) = h"
    by (rule ext) (auto simp: poke_def)
  then show "convert_endian host (convert_endian host h elem sz) elem sz = h"
    by (simp add: convert_endian_eq)
  show "convert_endian host h elem 1 = h"
    by (rule ext) (auto simp: convert_endian_eq poke_def peek_def le_less_Suc_eq)
qed

theorem convert_endian_twice_witness:
  "peek (convert_endian ENDIAN_LITTLE (convert_endian ENDIAN_LITTLE (heap_of 16 [1, 2, 3]) 16 3) 16 3) 16 3
     = [1, 2, 3] \<and>
   peek (convert_endian ENDIAN_BIG (convert_endian ENDIAN_BIG (heap_of 16 [1, 2, 3, 4]) 16 4) 16 4) 16 4
     = [1, 2, 3, 4] \<and>
   peek (convert_endian ENDIAN_LITTLE (heap_of 16 [1, 2, 3, 4]) 16 4) 16 4 = [4, 3, 2, 1] \<and>
   peek (convert_endian ENDIAN_LITTLE (heap_of 16 [9]) 16 1) 16 1 = [9]"
proof -
  have p3: "peek (heap_of 16 [1, 2, 3]) 16 3 = [1, 2, 3]"
    and p4: "peek (heap_of 16 [1, 2, 3, 4]) 16 4 = [1, 2, 3, 4]"
    and p1: "peek (heap_of 16 [9]) 16 (Suc 0) = [9]"
    by (simp_all add: heap_of_def)
  have s4: "peek (convert_endian ENDIAN_LITTLE (heap_of 16 [1, 2, 3, 4]) 16 4) 16 4 = [4, 3, 2, 1]"
    by (simp add: convert_endian_eq p4)
  show ?thesis
    using convert_endian_twice [of ENDIAN_LITTLE "heap_of 16 [1, 2, 3]" 16 3]
      convert_endian_twice [of ENDIAN_BIG "heap_of 16 [1, 2, 3, 4]" 16 4]
      convert_endian_twice [of ENDIAN_LITTLE "heap_of 16 [9]" 16 1]
    by (simp add: p3 p4 p1 s4)
qed

section \<open>The write path\<close>

text \<open>
  Claim C4. When the requested order is the host's order, a call with valid arguments is
  one \<open>fwrite\<close> of \<open>num\<close> elements straight from the source: the stream after the call
  is the stream after that \<open>fwrite\<close>. The call fails exactly when \<open>fwrite\<close> transferred
  fewer than \<open>num\<close> elements, and on success the bytes appended to the stream are the
  \<open>num * sz\<close> source bytes, unchanged.
\<close>

theorem fast_path_bulk_write:
  assumes "data \<noteq> 0" "sz \<noteq> 0" "num \<noteq> 0"
  shows "\<exists>r. write_endian host buffer h (Some f) data num sz host =
               Some (r, Some (snd (fwrite h data sz num f)), h) \<and>
             (r = 0 \<or> r = - 1) \<and>
             (r = - 1 \<longleftrightarrow> fst (fwrite h data sz num f) < num) \<and>
             (r = 0 \<longrightarrow>
                content (snd (fwrite h data sz num f)) = content f @ peek h data (num * sz) \<and>
                room (snd (fwrite h data sz num f)) = room f - num * sz)"
proof -
  define n where "n = fst (fwrite h data sz num f)"
  have le: "n \<le> num"
    unfolding n_def by (rule fwrite_count_le)
  have w: "write_endian host buffer h (Some f) data num sz host =
           Some (if n = num then 0 else - 1, Some (snd (fwrite h data sz num f)), h)"
    using assms
    by (cases host) (simp_all add: write_endian_def is_little_endian_eq split_beta n_def)
  have full: "sz * num \<le> room f" if "n = num"
  proof (rule ccontr)
    assume "\<not> sz * num \<le> room f"
    then have "fst (fwrite h data sz num f) < num"
      using assms(2) by (intro fwrite_count_short) simp_all
    with that show False by (simp add: n_def)
  qed
  have "content (snd (fwrite h data sz num f)) = content f @ peek h data (num * sz) \<and>
        room (snd (fwrite h data sz num f)) = room f - num * sz" if "n = num"
    using full [OF that] by (simp add: fwrite_eq mult.commute)
  with w le show ?thesis
    unfolding n_def [symmetric] by (intro exI [of _ "if n = num then 0 else - 1"]) auto
qed

theorem fast_path_bulk_write_witness:
  "write_endian ENDIAN_LITTLE 1000 (heap_of 16 [1, 2, 3, 4]) (Some (fresh 100)) 16 2 2 ENDIAN_LITTLE =
     Some (0, Some \<lparr>content = [1, 2, 3, 4], rpos = 0, room = 96\<rparr>, heap_of 16 [1, 2, 3, 4]) \<and>
   write_endian ENDIAN_BIG 1000 (heap_of 16 [1, 2, 3, 4]) (Some (fresh 3)) 16 2 2 ENDIAN_BIG =
     Some (- 1, Some \<lparr>content = [1, 2, 3], rpos = 0, room = 0\<rparr>, heap_of 16 [1, 2, 3, 4])"
proof -
  have p: "peek (heap_of 16 [1, 2, 3, 4]) 16 4 = [1, 2, 3, 4]"
    by (simp add: heap_of_def)
  have a: "fwrite (heap_of 16 [1, 2, 3, 4]) 16 2 2 (fresh 100) =
           (2, \<lparr>content = [1, 2, 3, 4], rpos = 0, room = 96\<rparr>)"
    by (simp add: fwrite_def fresh_def p)
  have b: "fwrite (heap_of 16 [1, 2, 3, 4]) 16 2 2 (fresh 3) =
           (1, \<lparr>content = [1, 2, 3], rpos = 0, room = 0\<rparr>)"
    by (simp add: fwrite_def fresh_def p)
  show ?thesis
    using fast_path_bulk_write [of 16 2 2 ENDIAN_LITTLE 1000 "heap_of 16 [1, 2, 3, 4]" "fresh 100"]
      fast_path_bulk_write [of 16 2 2 ENDIAN_BIG 1000 "heap_of 16 [1, 2, 3, 4]" "fresh 3"]
    by (auto simp: a b)
qed

text \<open>
  Claim C9. The write path never changes the caller's source array: whatever the call
  returns (success or failure), the \<open>num * sz\<close> bytes at \<open>data\<close> are the original ones,
  the scratch buffer being a region of its own. For element sizes up to the buffer's
  capacity the call does return.
\<close>

theorem write_leaves_source_untouched:
  assumes "data + num * sz \<le> buffer \<or> buffer + buffer_size \<le> data"
  shows "(sz \<le> buffer_size \<longrightarrow>
            write_endian host buffer h file data num sz target_endian \<noteq> None) \<and>
         (\<forall>r file' h'.
            write_endian host buffer h file data num sz target_endian = Some (r, file', h') \<longrightarrow>
            peek h' data (num * sz) = peek h data (num * sz))"
proof (intro conjI impI allI)
  assume "sz \<le> buffer_size"
  then show "write_endian host buffer h file data num sz target_endian \<noteq> None"
    using assms by (rule write_endian_returns)
next
  fix r file' h'
  assume w: "write_endian host buffer h file data num sz target_endian = Some (r, file', h')"
  show "peek h' data (num * sz) = peek h data (num * sz)"
  proof (rule peek_eqI)
    fix a assume "data \<le> a" "a < data + num * sz"
    with assms have "a < buffer \<or> buffer + buffer_size \<le> a"
      by auto
    with w assms show "h' a = h a"
      by (rule write_endian_frame)
  qed
qed

theorem write_leaves_source_untouched_witness:
  "(\<exists>f' h'. write_endian ENDIAN_LITTLE 1000 (heap_of 16 [1, 2, 3, 4, 5, 6]) (Some (fresh 100)) 16 2 3
               ENDIAN_BIG = Some (0, f', h') \<and>
            peek h' 16 6 = [1, 2, 3, 4, 5, 6] \<and> peek h' 1000 6 = [3, 2, 1, 6, 5, 4]) \<and>
   (\<exists>f' h'. write_endian ENDIAN_LITTLE 1000 (heap_of 16 [1, 2, 3, 4, 5, 6]) (Some (fresh 4)) 16 2 3
               ENDIAN_BIG = Some (- 1, f', h') \<and>
            peek h' 16 6 = [1, 2, 3, 4, 5, 6])"
proof -
  let ?h = "heap_of 16 [1, 2, 3, 4, 5, 6]"
  have p: "peek ?h 16 6 = [1, 2, 3, 4, 5, 6]"
    by (simp add: heap_of_def)
  have d: "(16::nat) + 2 * 3 \<le> 1000 \<or> (1000::nat) + buffer_size \<le> 16"
    by simp
  have a: "case write_endian ENDIAN_LITTLE 1000 ?h (Some (fresh 100)) 16 2 3 ENDIAN_BIG of
             None \<Rightarrow> False | Some (r, f', h') \<Rightarrow> r = 0 \<and> peek h' 1000 6 = [3, 2, 1, 6, 5, 4]"
    by code_simp
  have b: "case write_endian ENDIAN_LITTLE 1000 ?h (Some (fresh 4)) 16 2 3 ENDIAN_BIG of
             None \<Rightarrow> False | Some (r, f', h') \<Rightarrow> r = - 1"
    by code_simp
  from a obtain f1 h1 where
    a': "write_endian ENDIAN_LITTLE 1000 ?h (Some (fresh 100)) 16 2 3 ENDIAN_BIG = Some (0, f1, h1)"
      "peek h1 1000 6 = [3, 2, 1, 6, 5, 4]"
    by (auto split: option.splits)
  from b obtain f2 h2 where
    b': "write_endian ENDIAN_LITTLE 1000 ?h (Some (fresh 4)) 16 2 3 ENDIAN_BIG = Some (- 1, f2, h2)"
    by (auto split: option.splits)
  from write_leaves_source_untouched [OF d, of ENDIAN_LITTLE ?h "Some (fresh 100)" ENDIAN_BIG] a'(1)
  have "peek h1 16 6 = [1, 2, 3, 4, 5, 6]"
    by (simp add: p)
  moreover
  from write_leaves_source_untouched [OF d, of ENDIAN_LITTLE ?h "Some (fresh 4)" ENDIAN_BIG] b'
  have "peek h2 16 6 = [1, 2, 3, 4, 5, 6]"
    by (simp add: p)
  ultimately show ?thesis
    using a' b' by blast
qed

text \<open>
  Claim C2 (the code departs from it). The claim lets the batching loop end for every
  element size. With element size 257 and one element the number of elements per batch,
  \<open>buffer_size div 257\<close>, is 0, so every batch is \<open>min 1 0 = 0\<close> elements long, the
  \<open>fwrite\<close> of 0 elements returns 0, \<open>offset\<close> stays where it is, and the loop never
  returns: its value is \<open>None\<close>.
\<close>

theorem batching_loop_stalls_on_large_elements:
  "buffer_size div 257 = 0 \<and>
   (if (1::nat) - 0 < buffer_size div 257 then (1::nat) - 0 else buffer_size div 257) = 0 \<and>
   write_batches host h f buffer data 1 257 (buffer_size div 257) 0 = None"
  by (simp add: buffer_size_def write_batches_diverges)

text \<open>
  Within the buffer's capacity the loop does what is asked of it: for
  \<open>0 < sz \<le> buffer_size\<close> lemma \<open>write_endian_swap_path\<close> shows that the swap path
  returns, succeeds exactly when the stream has room for \<open>num * sz\<close> bytes, and has then
  appended every element, reversed, in array order.
\<close>

text \<open>
  Claim C1 (the code departs from it). The round trip is claimed for every element size.
  On a little-endian host \<open>write_be\<close> of one 257-byte element never returns, and neither
  does \<open>write_le\<close> on a big-endian host, so there is nothing to read back.
\<close>

theorem large_element_write_never_returns:
  "write_be ENDIAN_LITTLE 1000 h (Some f) 16 1 257 = None \<and>
   write_le ENDIAN_BIG 1000 h (Some f) 16 1 257 = None"
  by (simp add: write_be_def write_le_def write_endian_diverges buffer_size_def)

text \<open>
  For element sizes up to the buffer's capacity the round trip holds on either host and
  in either order: the write succeeds on a fresh stream with room for the array, and
  reading the stream back from its start into any destination reproduces the source
  bytes.
\<close>

theorem roundtrip_up_to_buffer_size:
  assumes "data \<noteq> 0" "dst \<noteq> 0" "buffer \<noteq> 0" "0 < sz" "sz \<le> buffer_size" "0 < num"
    and "data + num * sz \<le> buffer \<or> buffer + buffer_size \<le> data"
    and "num * sz \<le> n"
  shows "\<exists>f1 h1 f2 h2.
           write_endian host buffer h (Some (fresh n)) data num sz e = Some (0, Some f1, h1) \<and>
           read_endian host h1 (Some (f1\<lparr>rpos := 0\<rparr>)) dst num sz e = (0, Some f2, h2) \<and>
           peek h2 dst (num * sz) = peek h data (num * sz)"
proof -
  define X where "X = converted (e \<noteq> host) sz num (peek h data (num * sz))"
  define f1 where "f1 = (fresh n)\<lparr>content := content (fresh n) @ X, room := room (fresh n) - num * sz\<rparr>"
  have rm: "num * sz \<le> room (fresh n)"
    using assms(8) by (simp add: fresh_def)
  from write_endian_success [OF assms(1,4,6,3,5,7) rm, of host h e]
  obtain h1 where w: "write_endian host buffer h (Some (fresh n)) data num sz e = Some (0, Some f1, h1)"
    by (auto simp: f1_def X_def)
  have lX: "length X = num * sz"
    by (simp add: X_def length_converted)
  have c: "content f1 = X" "rpos (f1\<lparr>rpos := 0\<rparr>) = 0" "content (f1\<lparr>rpos := 0\<rparr>) = X"
    by (simp_all add: f1_def fresh_def)
  have undo: "converted (e \<noteq> host) sz num X = peek h data (num * sz)"
  proof (cases "e = host")
    case True
    then show ?thesis by (simp add: X_def converted_False)
  next
    case False
    have "converted True sz num (swapped h data sz 0 num @ []) = peek h data (num * sz)"
      by (rule converted_swapped)
    with False show ?thesis by (simp add: X_def swapped_chunks)
  qed
  have "read_endian host h1 (Some (f1\<lparr>rpos := 0\<rparr>)) dst num sz e =
        (0, Some (f1\<lparr>rpos := num * sz\<rparr>), poke h1 dst (peek h data (num * sz)))"
    using assms(4) by (simp add: read_endian_spec [OF assms(2,4)] c lX undo)
  moreover have "peek (poke h1 dst (peek h data (num * sz))) dst (num * sz) = peek h data (num * sz)"
    by simp
  ultimately show ?thesis
    using w by blast
qed

theorem roundtrip_up_to_buffer_size_witness:
  "\<exists>f1 h1 f2 h2.
     write_endian ENDIAN_LITTLE 1000 (heap_of 16 [1, 2, 3, 4, 5, 6]) (Some (fresh 100)) 16 2 3 ENDIAN_BIG
       = Some (0, Some f1, h1) \<and>
     read_endian ENDIAN_LITTLE h1 (Some (f1\<lparr>rpos := 0\<rparr>)) 2000 2 3 ENDIAN_BIG = (0, Some f2, h2) \<and>
     peek h2 2000 6 = [1, 2, 3, 4, 5, 6]"
proof -
  have p: "peek (heap_of 16 [1, 2, 3, 4, 5, 6]) 16 6 = [1, 2, 3, 4, 5, 6]"
    by (simp add: heap_of_def)
  have d: "(16::nat) + 2 * 3 \<le> 1000 \<or> (1000::nat) + buffer_size \<le> 16"
    by simp
  from roundtrip_up_to_buffer_size [of 16 2000 1000 3 2 100 ENDIAN_LITTLE "heap_of 16 [1, 2, 3, 4, 5, 6]"
      ENDIAN_BIG, OF _ _ _ _ _ _ d]
  show ?thesis
    by (simp add: buffer_size_def p)
qed

text \<open>
  Claim C3 (the code departs from it). The bytes \<open>write_be\<close> produces are claimed to be
  the same on either host. For one element of 257 bytes a big-endian host writes the
  257 bytes and returns 0, while a little-endian host never returns and writes nothing.
\<close>

theorem write_be_depends_on_host_for_large_elements:
  "write_be ENDIAN_LITTLE 1000 h (Some (fresh 1000)) 16 1 257 = None \<and>
   write_be ENDIAN_BIG 1000 h (Some (fresh 1000)) 16 1 257 =
     Some (0, Some \<lparr>content = peek h 16 257, rpos = 0, room = 743\<rparr>, h)"
proof
  show "write_be ENDIAN_LITTLE 1000 h (Some (fresh 1000)) 16 1 257 = None"
    by (simp add: write_be_def write_endian_diverges buffer_size_def)
  show "write_be ENDIAN_BIG 1000 h (Some (fresh 1000)) 16 1 257 =
     Some (0, Some \<lparr>content = peek h 16 257, rpos = 0, room = 743\<rparr>, h)"
    by (simp add: write_be_def write_endian_Some fwrite_eq fresh_def)
qed

text \<open>
  For element sizes up to the buffer's capacity the written bytes do not depend on the
  host. An array of values \<open>ws\<close> lies in memory in the host's representation
  (\<open>word_bytes host\<close>); \<open>write_be\<close> emits each value most significant byte first and
  \<open>write_le\<close> least significant byte first, whatever the host, so the output of
  \<open>write_be\<close> is that of \<open>write_le\<close> with the bytes of each element reversed.
\<close>

theorem written_bytes_independent_of_host_up_to_buffer_size:
  assumes "data \<noteq> 0" "buffer \<noteq> 0" "0 < n" "n \<le> buffer_size" "ws \<noteq> []"
    and "data + length ws * n \<le> buffer \<or> buffer + buffer_size \<le> data"
    and "length ws * n \<le> room f"
    and "peek h data (length ws * n) = concat (map (word_bytes host n) ws)"
  shows "\<exists>h1 h2.
     write_be host buffer h (Some f) data (length ws) n =
       Some (0, Some (f\<lparr>content := content f @ concat (map (\<lambda>w. rev (le_bytes n w)) ws),
                        room := room f - length ws * n\<rparr>), h1) \<and>
     write_le host buffer h (Some f) data (length ws) n =
       Some (0, Some (f\<lparr>content := content f @ concat (map (le_bytes n) ws),
                        room := room f - length ws * n\<rparr>), h2)"
proof -
  have num: "0 < length ws"
    using assms(5) by simp
  from write_endian_success [OF assms(1,3) num assms(2,4,6,7), of host h ENDIAN_BIG]
  obtain h1 where "write_be host buffer h (Some f) data (length ws) n =
       Some (0, Some (f\<lparr>content := content f @ concat (map (word_bytes ENDIAN_BIG n) ws),
                        room := room f - length ws * n\<rparr>), h1)"
    by (auto simp: write_be_def assms(8) converted_word_bytes)
  moreover
  from write_endian_success [OF assms(1,3) num assms(2,4,6,7), of host h ENDIAN_LITTLE]
  obtain h2 where "write_le host buffer h (Some f) data (length ws) n =
       Some (0, Some (f\<lparr>content := content f @ concat (map (word_bytes ENDIAN_LITTLE n) ws),
                        room := room f - length ws * n\<rparr>), h2)"
    by (auto simp: write_le_def assms(8) converted_word_bytes)
  moreover have "(word_bytes ENDIAN_BIG n :: 'a word \<Rightarrow> byte list) = (\<lambda>w. rev (le_bytes n w))"
    "(word_bytes ENDIAN_LITTLE n :: 'a word \<Rightarrow> byte list) = le_bytes n"
    by (rule ext, simp add: word_bytes_def)+
  ultimately show ?thesis
    by simp
qed

theorem written_bytes_independent_of_host_witness:
  "(\<exists>h1. write_be ENDIAN_LITTLE 1000 (heap_of 16 [0x44, 0x33, 0x22, 0x11]) (Some (fresh 100)) 16 1 4 =
       Some (0, Some \<lparr>content = [0x11, 0x22, 0x33, 0x44], rpos = 0, room = 96\<rparr>, h1)) \<and>
   (\<exists>h1. write_be ENDIAN_BIG 1000 (heap_of 16 [0x11, 0x22, 0x33, 0x44]) (Some (fresh 100)) 16 1 4 =
       Some (0, Some \<lparr>content = [0x11, 0x22, 0x33, 0x44], rpos = 0, room = 96\<rparr>, h1)) \<and>
   (\<exists>h2. write_le ENDIAN_LITTLE 1000 (heap_of 16 [0x44, 0x33, 0x22, 0x11]) (Some (fresh 100)) 16 1 4 =
       Some (0, Some \<lparr>content = [0x44, 0x33, 0x22, 0x11], rpos = 0, room = 96\<rparr>, h2)) \<and>
   (\<exists>h2. write_le ENDIAN_BIG 1000 (heap_of 16 [0x11, 0x22, 0x33, 0x44]) (Some (fresh 100)) 16 1 4 =
       Some (0, Some \<lparr>content = [0x44, 0x33, 0x22, 0x11], rpos = 0, room = 96\<rparr>, h2))"
proof -
  have b: "le_bytes 4 (0x11223344 :: 32 word) = [0x44, 0x33, 0x22, 0x11]"
    by (simp add: le_bytes_def upt_rec)
  have d: "(16::nat) + length [0x11223344 :: 32 word] * 4 \<le> 1000 \<or> (1000::nat) + buffer_size \<le> 16"
    by simp
  have l: "peek (heap_of 16 [0x44, 0x33, 0x22, 0x11]) 16 (length [0x11223344 :: 32 word] * 4) =
           concat (map (word_bytes ENDIAN_LITTLE 4) [0x11223344 :: 32 word])"
    by (simp add: heap_of_def word_bytes_def b)
  have g: "peek (heap_of 16 [0x11, 0x22, 0x33, 0x44]) 16 (length [0x11223344 :: 32 word] * 4) =
           concat (map (word_bytes ENDIAN_BIG 4) [0x11223344 :: 32 word])"
    by (simp add: heap_of_def word_bytes_def b)
  from written_bytes_independent_of_host_up_to_buffer_size
         [of 16 1000 4 "[0x11223344 :: 32 word]" "fresh 100" _ ENDIAN_LITTLE, OF _ _ _ _ _ d _ l]
       written_bytes_independent_of_host_up_to_buffer_size
         [of 16 1000 4 "[0x11223344 :: 32 word]" "fresh 100" _ ENDIAN_BIG, OF _ _ _ _ _ d _ g]
  show ?thesis
    by (simp add: buffer_size_def fresh_def b)
qed

section \<open>The read path\<close>

text \<open>
  Claim C7, as stated, fails at the failing index. Reading two 3-byte elements from a
  stream of 5 bytes fails at index 1, after the first element was read and converted;
  the two bytes the short \<open>fread\<close> did transfer are already in the destination, so
  element 1 is \<open>[10, 11, 6]\<close> and no longer \<open>[4, 5, 6]\<close>.
\<close>

theorem short_read_touches_failing_element:
  "fst (read_be ENDIAN_LITTLE (heap_of 16 [1, 2, 3, 4, 5, 6])
          (Some \<lparr>content = [7, 8, 9, 10, 11], rpos = 0, room = 0\<rparr>) 16 2 3) = - 1 \<and>
   element (snd (snd (read_be ENDIAN_LITTLE (heap_of 16 [1, 2, 3, 4, 5, 6])
          (Some \<lparr>content = [7, 8, 9, 10, 11], rpos = 0, room = 0\<rparr>) 16 2 3))) 16 3 0 = [9, 8, 7] \<and>
   element (heap_of 16 [1, 2, 3, 4, 5, 6]) 16 3 1 = [4, 5, 6] \<and>
   element (snd (snd (read_be ENDIAN_LITTLE (heap_of 16 [1, 2, 3, 4, 5, 6])
          (Some \<lparr>content = [7, 8, 9, 10, 11], rpos = 0, room = 0\<rparr>) 16 2 3))) 16 3 1 = [10, 11, 6]"
  by code_simp

text \<open>
  Claim C7, amended. When the stream holds fewer than \<open>num * sz\<close> bytes the call fails,
  having consumed what the stream held. Every element before the failing index holds
  its converted value; the failing element holds, in its leading positions, the bytes of
  the short read as they came; and every byte of memory beyond the last byte transferred
  (the rest of the failing element and all later elements) is as it was.
\<close>

theorem short_read_prefix_and_frame:
  assumes "data \<noteq> 0" "0 < sz"
    and "length (content f) - rpos f < num * sz"
  shows "\<exists>f' h'.
     read_endian host h (Some f) data num sz e = (- 1, Some f', h') \<and>
     rpos f' = rpos f + (length (content f) - rpos f) \<and>
     (\<forall>j < (length (content f) - rpos f) div sz.
        element h' data sz j =
          (if e \<noteq> host then rev (take sz (drop (j * sz) (drop (rpos f) (content f))))
           else take sz (drop (j * sz) (drop (rpos f) (content f))))) \<and>
     peek h' (data + (length (content f) - rpos f) div sz * sz) ((length (content f) - rpos f) mod sz) =
       drop ((length (content f) - rpos f) div sz * sz) (drop (rpos f) (content f)) \<and>
     (\<forall>a. a < data \<or> data + (length (content f) - rpos f) \<le> a \<longrightarrow> h' a = h a)"
proof -
  define rest where "rest = drop (rpos f) (content f)"
  define avail where "avail = length (content f) - rpos f"
  define k where "k = avail div sz"
  define B where "B = converted (e \<noteq> host) sz k rest @ drop (k * sz) rest"
  define h' where "h' = poke h data B"
  have len: "length rest = avail"
    by (simp add: rest_def avail_def)
  have ksz: "k * sz \<le> avail"
    by (simp add: k_def)
  have kr: "k * sz \<le> length rest"
    using ksz len by simp
  have kn: "\<not> num \<le> k"
    using assms(2,3) by (simp add: k_def avail_def not_le div_less_iff_less_mult)
  have lc: "length (converted (e \<noteq> host) sz k rest) = k * sz"
    using kr by (rule length_converted)
  have lB: "length B = avail"
    using ksz by (simp add: B_def lc len)
  have r: "read_endian host h (Some f) data num sz e = (- 1, Some (f\<lparr>rpos := rpos f + avail\<rparr>), h')"
    using kn
    by (simp add: read_endian_spec [OF assms(1,2)] h'_def B_def k_def avail_def rest_def)
  have el: "element h' data sz j =
          (if e \<noteq> host then rev (take sz (drop (j * sz) rest)) else take sz (drop (j * sz) rest))"
    if "j < k" for j
  proof -
    have "Suc j * sz \<le> k * sz"
      using that by (intro mult_le_mono1) simp
    then have "j * sz + sz \<le> length B"
      using ksz lB by simp
    then have "element h' data sz j = take sz (drop (j * sz) B)"
      unfolding element_def h'_def by (rule peek_poke_inside)
    also have "\<dots> = (if e \<noteq> host then rev (take sz (drop (j * sz) rest))
                      else take sz (drop (j * sz) rest))"
      unfolding B_def using kr that by (rule nth_converted)
    finally show ?thesis .
  qed
  have m: "avail mod sz = avail - k * sz"
    by (simp add: k_def minus_div_mult_eq_mod)
  have "k * sz + avail mod sz \<le> length B"
    using ksz by (simp add: lB m)
  then have "peek h' (data + k * sz) (avail mod sz) = take (avail mod sz) (drop (k * sz) B)"
    unfolding h'_def by (rule peek_poke_inside)
  also have "drop (k * sz) B = drop (k * sz) rest"
    by (simp add: B_def lc)
  also have "take (avail mod sz) (drop (k * sz) rest) = drop (k * sz) rest"
    by (simp add: m len)
  finally have tail: "peek h' (data + k * sz) (avail mod sz) = drop (k * sz) rest" .
  have frame: "\<forall>a. a < data \<or> data + avail \<le> a \<longrightarrow> h' a = h a"
    by (simp add: h'_def poke_outside lB)
  show ?thesis
    using r el tail frame
    unfolding k_def avail_def rest_def
    by (intro exI [of _ "f\<lparr>rpos := rpos f + (length (content f) - rpos f)\<rparr>"] exI [of _ h']) simp
qed

theorem short_read_prefix_and_frame_witness:
  "\<exists>f' h'.
     read_endian ENDIAN_LITTLE (heap_of 16 [1, 2, 3, 4, 5, 6])
        (Some \<lparr>content = [7, 8, 9, 10, 11], rpos = 0, room = 0\<rparr>) 16 2 3 ENDIAN_BIG = (- 1, Some f', h') \<and>
     rpos f' = 5 \<and>
     element h' 16 3 0 = [9, 8, 7] \<and>
     peek h' 19 2 = [10, 11] \<and>
     h' 21 = 6"
proof -
  have s: "length (content \<lparr>content = [7, 8, 9, 10, 11 :: byte], rpos = 0, room = 0\<rparr>)
             - rpos \<lparr>content = [7, 8, 9, 10, 11 :: byte], rpos = 0, room = 0\<rparr> < 2 * 3"
    by simp
  have h21: "heap_of 16 [1, 2, 3, 4, 5, 6] 21 = 6"
    by (simp add: heap_of_def poke_def)
  from short_read_prefix_and_frame [of 16 3 "\<lparr>content = [7, 8, 9, 10, 11], rpos = 0, room = 0\<rparr>" 2
      ENDIAN_LITTLE "heap_of 16 [1, 2, 3, 4, 5, 6]" ENDIAN_BIG, OF _ _ s]
  obtain f' h' where
    "read_endian ENDIAN_LITTLE (heap_of 16 [1, 2, 3, 4, 5, 6])
        (Some \<lparr>content = [7, 8, 9, 10, 11], rpos = 0, room = 0\<rparr>) 16 2 3 ENDIAN_BIG = (- 1, Some f', h')"
    "rpos f' = 5"
    "\<forall>j<Suc 0. element h' 16 3 j = rev (take 3 (drop (j * 3) [7, 8, 9, 10, 11]))"
    "peek h' 19 2 = [10, 11]"
    "\<forall>a. a < 16 \<or> 21 \<le> a \<longrightarrow> h' a = heap_of 16 [1, 2, 3, 4, 5, 6] a"
    by auto
  then show ?thesis
    by (intro exI [of _ f'] exI [of _ h']) (simp add: h21)
qed

end
